theory Spec2Isabelle
  imports Main "HOL-Library.AList" "HOL-Library.Log_Nat"
begin

section \<open>The relay server of \<^verbatim>\<open>src/s.js\<close>\<close>

text \<open>
  The server is a single-threaded Node.js process: every handler (connection, message,
  close, error, pong, the heartbeat interval, the batch timeout) runs to completion.
  Each handler is embedded as a function from the server state before it to the server
  state after it. The module-level variables \<^verbatim>\<open>clients\<close>, \<^verbatim>\<open>chatHistory\<close>,
  \<^verbatim>\<open>pendingUpdates\<close> and \<^verbatim>\<open>updateBatchTimer\<close> are fields of the state; so is what
  the \<^verbatim>\<open>ws\<close> library and the event loop hold for the program: the sockets, the
  library's own set \<^verbatim>\<open>wss.clients\<close>, the frames handed to \<^verbatim>\<open>ws.send\<close>, the pings,
  and the number of pending \<^verbatim>\<open>flushBatchedUpdates\<close> timeouts.

  The numbers of a state (positions, rotation, velocity) are IEEE 754 binary64 values
  with the rounding subtraction of JavaScript; millisecond timestamps are naturals.
  \<^verbatim>\<open>Date.now()\<close> and \<^verbatim>\<open>Math.random()\<close> are inputs of the handlers that call them.
  Output on the console is not modelled.
\<close>

subsection \<open>JavaScript numbers\<close>

text \<open>
  A JavaScript number is a binary64 value. Every finite binary64 value is an integer
  multiple of \<^verbatim>\<open>2^-1074\<close>, the smallest subnormal: \<open>Finite n\<close> stands for
  \<open>n\<close> times that unit. The two zeros are not told apart (no operation of the program
  does). \<open>binary64 m e\<close> is the value \<open>m\<close> times two to the power \<open>e\<close>, for
  \<open>e\<close> from -1074 on. Not every \<open>Finite n\<close> is a binary64 value (one is when
  \<open>n\<close> has at most 53 significant bits and a magnitude below \<^verbatim>\<open>2^2098\<close>); the operations
  are defined on all of them.
\<close>

datatype number = Finite int | PosInfinity | NegInfinity | NaN

definition binary64 :: "int \<Rightarrow> int \<Rightarrow> number" where
  "binary64 m e = Finite (m * 2 ^ nat (e + 1074))"

text \<open>
  Rounding an exact magnitude (in the unit above) to binary64, to nearest and ties to
  even. Below \<^verbatim>\<open>2^53\<close> units every integer is a value. Otherwise the value keeps 53
  significant bits: \<open>sh\<close> bits are dropped, \<open>r\<close> is what they held, and the
  significand \<open>q\<close> goes up when \<open>r\<close> is more than half a unit of the last place, or
  exactly half with \<open>q\<close> odd.
\<close>

definition round_magnitude :: "int \<Rightarrow> int" where
  "round_magnitude a =
     (if a < 2 ^ 53 then a
      else
        (let sh = nat (bitlen a - 53);
             q = a div 2 ^ sh;
             r = a mod 2 ^ sh;
             half = 2 ^ (sh - 1)
         in (if r < half then q else if r > half then q + 1
             else if even q then q else q + 1) * 2 ^ sh))"

text \<open>
  Rounding an exact value: the magnitude is rounded and the sign kept. A result of
  \<^verbatim>\<open>2^1024\<close> or more (\<^verbatim>\<open>2^2098\<close> units) overflows to an infinity.
\<close>

definition round64 :: "int \<Rightarrow> number" where
  "round64 n =
     (let v = round_magnitude \<bar>n\<bar>
      in if v \<ge> 2 ^ 2098 then (if n < 0 then NegInfinity else PosInfinity)
         else Finite (if n < 0 then - v else v))"

text \<open>The operators \<^verbatim>\<open>-\<close> and \<^verbatim>\<open>>\<close> on numbers, and \<^verbatim>\<open>Math.abs\<close>.\<close>

fun js_minus :: "number \<Rightarrow> number \<Rightarrow> number" where
  "js_minus NaN y = NaN"
| "js_minus x NaN = NaN"
| "js_minus (Finite a) (Finite b) = round64 (a - b)"
| "js_minus (Finite a) PosInfinity = NegInfinity"
| "js_minus (Finite a) NegInfinity = PosInfinity"
| "js_minus PosInfinity PosInfinity = NaN"
| "js_minus PosInfinity y = PosInfinity"
| "js_minus NegInfinity NegInfinity = NaN"
| "js_minus NegInfinity y = NegInfinity"

fun Math_abs :: "number \<Rightarrow> number" where
  "Math_abs (Finite a) = Finite \<bar>a\<bar>"
| "Math_abs PosInfinity = PosInfinity"
| "Math_abs NegInfinity = PosInfinity"
| "Math_abs NaN = NaN"

fun js_gt :: "number \<Rightarrow> number \<Rightarrow> bool" where
  "js_gt NaN y = False"
| "js_gt x NaN = False"
| "js_gt (Finite a) (Finite b) = (a > b)"
| "js_gt (Finite a) PosInfinity = False"
| "js_gt (Finite a) NegInfinity = True"
| "js_gt PosInfinity PosInfinity = False"
| "js_gt PosInfinity y = True"
| "js_gt NegInfinity y = False"

subsection \<open>Data\<close>

type_synonym ws = nat
  \<comment> \<open>the identity of a WebSocket object, the key of the JavaScript Maps\<close>

datatype readyState = CONNECTING | OPEN | CLOSING | CLOSED

record vec3 =
  vx :: number
  vy :: number
  vz :: number

record pstate =
  position :: vec3
  rotationY :: number
  isMoving :: bool
  isGrounded :: bool
  velocityY :: number
  velocity :: vec3
  timestamp :: "nat option"
  serverTimestamp :: "nat option"
  clientTimestamp :: "nat option"

record clientData =
  clientId :: string
  state :: pstate
  lastUpdate :: nat
  lastHeartbeat :: nat

datatype chatEntry =
  ChatEntry (entry_senderId: string) (entry_message: string) (entry_timestamp: nat)

text \<open>The JSON messages the server sends, one constructor for each \<^verbatim>\<open>type\<close>.\<close>

datatype frame =
    AssignId string pstate nat
  | ExistingPlayers "(string \<times> pstate) list"
  | ChatHistoryFrame "chatEntry list"
  | PlayerJoined string pstate
  | PlayerLeft string
  | PlayerUpdate string pstate
  | BatchUpdate "frame list"
  | ChatMessage string string nat
  | EmoteStart string string nat
  | Pong "nat option" nat

text \<open>
  What a message handler can be given. \<open>Malformed\<close> is a string on which
  \<^verbatim>\<open>JSON.parse\<close> throws; \<open>UnknownIn\<close> is any parsed value whose \<^verbatim>\<open>type\<close> is
  none of the four the handler knows.
\<close>

datatype inbound =
    Malformed
  | PlayerUpdateIn pstate
  | ChatMessageIn string
  | EmoteCommandIn string
  | PingIn "nat option"
  | UnknownIn

text \<open>
  A socket as the program sees it: the library's \<^verbatim>\<open>readyState\<close>, the program's own
  property \<^verbatim>\<open>isAlive\<close>, and whether \<^verbatim>\<open>send\<close> on it throws (decided by the
  environment).
\<close>

record socket =
  readyState :: readyState
  isAlive :: bool
  sendFails :: bool

record server =
  clients :: "(ws \<times> clientData) list"
  chatHistory :: "chatEntry list"
  pendingUpdates :: "(ws \<times> frame list) list"
  updateBatchTimer :: bool
  scheduledFlushes :: nat
  socks :: "ws \<Rightarrow> socket"
  wssClients :: "ws list"
  sent :: "(ws \<times> frame) list"
  pinged :: "ws list"

text \<open>
  \<open>clients\<close> and \<open>pendingUpdates\<close> are JavaScript Maps: association lists in
  insertion order, which is the order \<^verbatim>\<open>forEach\<close> visits. \<open>updateBatchTimer\<close> is
  whether the variable holds a timer (it is only ever tested for truth), and
  \<open>scheduledFlushes\<close> counts the timeouts of \<^verbatim>\<open>flushBatchedUpdates\<close> that the event
  loop holds. \<open>sent\<close> lists, oldest first, every frame a \<^verbatim>\<open>send\<close> accepted, with
  the socket it was sent on.
\<close>

datatype error = SendError

definition MAX_CHAT_HISTORY :: nat where
  "MAX_CHAT_HISTORY = 25"

text \<open>
  The literal \<^verbatim>\<open>0.001\<close> is the binary64 value nearest to it,
  \<^verbatim>\<open>0x1.0624dd2f1a9fcp-10\<close>, which is 4611686018427388 times \<^verbatim>\<open>2^-62\<close>.
\<close>

definition POSITION_THRESHOLD :: number where
  "POSITION_THRESHOLD = binary64 4611686018427388 (- 62)"

definition ROTATION_THRESHOLD :: number where
  "ROTATION_THRESHOLD = binary64 4611686018427388 (- 62)"

subsection \<open>The library's socket operations\<close>

text \<open>
  \<^verbatim>\<open>ws.send\<close>: throws while the socket is connecting, drops the data once it is
  closing or closed, and otherwise hands the frame to the socket unless the send fails.
\<close>

definition ws_send :: "ws \<Rightarrow> frame \<Rightarrow> server \<Rightarrow> error + server" where
  "ws_send w data s =
     (case readyState (socks s w) of
        CONNECTING \<Rightarrow> Inl SendError
      | OPEN \<Rightarrow> if sendFails (socks s w) then Inl SendError
                else Inr (s\<lparr>sent := sent s @ [(w, data)]\<rparr>)
      | CLOSING \<Rightarrow> Inr s
      | CLOSED \<Rightarrow> Inr s)"

text \<open>
  \<^verbatim>\<open>ws.ping\<close> is recorded in \<open>pinged\<close>. \<^verbatim>\<open>ws.terminate\<close> does nothing to a
  closed socket and otherwise destroys the connection, which leaves the socket closing;
  its \<^verbatim>\<open>close\<close> event is emitted later, as an event of its own.
\<close>

definition ws_ping :: "ws \<Rightarrow> server \<Rightarrow> server" where
  "ws_ping w s = s\<lparr>pinged := pinged s @ [w]\<rparr>"

definition ws_terminate :: "ws \<Rightarrow> server \<Rightarrow> server" where
  "ws_terminate w s =
     (if readyState (socks s w) = CLOSED then s
      else s\<lparr>socks := (socks s)(w := (socks s w)\<lparr>readyState := CLOSING\<rparr>)\<rparr>)"

subsection \<open>Immediate broadcast and disconnect handling\<close>

text \<open>
  \<^verbatim>\<open>broadcastImmediate\<close> and \<^verbatim>\<open>handleClientDisconnect\<close> call each other: a send
  that throws disconnects its recipient, which broadcasts \<^verbatim>\<open>player_left\<close> while the
  outer \<^verbatim>\<open>forEach\<close> is still running. \<^verbatim>\<open>Map.prototype.forEach\<close> skips an entry
  deleted before its turn; nothing is inserted during a broadcast, so the loop runs over
  the keys present when it starts and looks each one up again at its turn.
\<close>

function broadcastImmediate_forEach :: "ws list \<Rightarrow> frame \<Rightarrow> ws option \<Rightarrow> server \<Rightarrow> server"
  and handleClientDisconnect :: "ws \<Rightarrow> server \<Rightarrow> server" where
  "broadcastImmediate_forEach [] messageStr excludeWs s = s"
| "broadcastImmediate_forEach (w # rest) messageStr excludeWs s =
     (case map_of (clients s) w of
        None \<Rightarrow> broadcastImmediate_forEach rest messageStr excludeWs s
      | Some cd \<Rightarrow>
          if Some w \<noteq> excludeWs \<and> readyState (socks s w) = OPEN then
            (case ws_send w messageStr s of
               Inr s' \<Rightarrow> broadcastImmediate_forEach rest messageStr excludeWs s'
             | Inl e \<Rightarrow> broadcastImmediate_forEach rest messageStr excludeWs
                          (handleClientDisconnect w s))
          else broadcastImmediate_forEach rest messageStr excludeWs s)"
| "handleClientDisconnect w s =
     (case map_of (clients s) w of
        None \<Rightarrow> s
      | Some cd \<Rightarrow>
          (let s' = s\<lparr>clients := AList.delete w (clients s),
                        pendingUpdates := AList.delete w (pendingUpdates s)\<rparr>
           in broadcastImmediate_forEach (map fst (clients s')) (PlayerLeft (clientId cd)) None s'))"
  by pat_completeness auto

lemma length_delete_le: "length (AList.delete k al) \<le> length al"
  by (simp add: AList.delete_eq)

lemma length_delete_less:
  "map_of al k = Some v \<Longrightarrow> length (AList.delete k al) < length al"
  by (induction al) (auto simp: AList.delete_eq less_Suc_eq_le split: if_splits)

lemma ws_send_clients: "ws_send w m s = Inr s' \<Longrightarrow> clients s' = clients s"
  by (auto simp: ws_send_def split: readyState.splits if_splits)

lemma dom_clients_shrink:
  "broadcastImmediate_forEach_handleClientDisconnect_dom (Inl (ks, m, ex, s)) \<Longrightarrow>
     length (clients (broadcastImmediate_forEach ks m ex s)) \<le> length (clients s)"
  "broadcastImmediate_forEach_handleClientDisconnect_dom (Inr (w, s)) \<Longrightarrow>
     length (clients (handleClientDisconnect w s)) \<le> length (clients s)"
proof (induction rule: broadcastImmediate_forEach_handleClientDisconnect.pinduct)
  case (1 messageStr excludeWs s)
  then show ?case by (simp add: broadcastImmediate_forEach.psimps)
next
  case (2 w rest messageStr excludeWs s)
  show ?case
  proof (cases "map_of (clients s) w")
    case None
    with 2 show ?thesis by (simp add: broadcastImmediate_forEach.psimps)
  next
    case (Some cd)
    show ?thesis
    proof (cases "Some w \<noteq> excludeWs \<and> readyState (socks s w) = OPEN")
      case False
      with 2(1) 2(6)[OF Some False] Some show ?thesis
        by (auto simp: broadcastImmediate_forEach.psimps)
    next
      case True
      show ?thesis
      proof (cases "ws_send w messageStr s")
        case (Inl e)
        from 2(3)[OF Some True Inl] 2(4)[OF Some True Inl]
        have "length (clients (broadcastImmediate_forEach rest messageStr excludeWs
                (handleClientDisconnect w s))) \<le> length (clients s)"
          by simp
        with 2(1) Some True Inl show ?thesis
          by (simp add: broadcastImmediate_forEach.psimps)
      next
        case (Inr s')
        from 2(5)[OF Some True Inr] ws_send_clients[OF Inr]
        have "length (clients (broadcastImmediate_forEach rest messageStr excludeWs s'))
                \<le> length (clients s)" by simp
        with 2(1) Some True Inr show ?thesis
          by (simp add: broadcastImmediate_forEach.psimps)
      qed
    qed
  qed
next
  case (3 w s)
  show ?case
  proof (cases "map_of (clients s) w")
    case None
    with 3 show ?thesis by (simp add: handleClientDisconnect.psimps)
  next
    case (Some cd)
    from 3(2)[OF Some refl] length_delete_le[of w "clients s"]
    have "length (clients (broadcastImmediate_forEach
            (map fst (AList.delete w (clients s))) (PlayerLeft (clientId cd)) None
            (s\<lparr>clients := AList.delete w (clients s),
                pendingUpdates := AList.delete w (pendingUpdates s)\<rparr>))) \<le> length (clients s)"
      by simp
    with 3(1) Some show ?thesis by (simp add: handleClientDisconnect.psimps)
  qed
qed

termination broadcastImmediate_forEach
proof (relation "inv_image (less_than <*lex*> less_than)
     (\<lambda>a. case a of Inl (ks, m, ex, s) \<Rightarrow> (length (clients s), Suc (length ks))
                   | Inr (w, s) \<Rightarrow> (length (clients s), 0))", goal_cases)
  case 1
  show ?case by (intro wf_inv_image wf_lex_prod wf_less_than)
next
  case (2 w rest messageStr excludeWs s)
  then show ?case by simp
next
  case (3 w rest messageStr excludeWs s x2 a)
  then show ?case by simp
next
  case (4 w rest messageStr excludeWs s x2 a)
  from dom_clients_shrink(2)[OF 4(4)] show ?case
    by (auto simp: less_Suc_eq_le)
next
  case (5 w rest messageStr excludeWs s x2 b)
  then show ?case by (simp add: ws_send_clients)
next
  case (6 w rest messageStr excludeWs s x2)
  then show ?case by simp
next
  case (7 w s x2 x)
  then show ?case by (simp add: length_delete_less)
qed

declare handleClientDisconnect.simps [simp del]
declare broadcastImmediate_forEach.simps(2) [simp del]

definition broadcastImmediate :: "frame \<Rightarrow> ws option \<Rightarrow> server \<Rightarrow> server" where
  "broadcastImmediate message excludeWs s =
     broadcastImmediate_forEach (map fst (clients s)) message excludeWs s"

subsection \<open>Batched broadcast\<close>

text \<open>
  Lines 61 to 64: create the recipient's queue when the Map has none, then push.
\<close>

definition pending_push :: "ws \<Rightarrow> frame \<Rightarrow> (ws \<times> frame list) list \<Rightarrow> (ws \<times> frame list) list" where
  "pending_push w message pu =
     (let pu' = (if map_of pu w = None then AList.update w [] pu else pu)
      in AList.map_entry w (\<lambda>q. q @ [message]) pu')"

fun batchBroadcast_forEach :: "ws list \<Rightarrow> frame \<Rightarrow> ws option \<Rightarrow> server \<Rightarrow> server" where
  "batchBroadcast_forEach [] message excludeWs s = s"
| "batchBroadcast_forEach (w # rest) message excludeWs s =
     (if Some w \<noteq> excludeWs \<and> readyState (socks s w) = OPEN then
        batchBroadcast_forEach rest message excludeWs
          (s\<lparr>pendingUpdates := pending_push w message (pendingUpdates s)\<rparr>)
      else batchBroadcast_forEach rest message excludeWs s)"

definition batchBroadcast :: "frame \<Rightarrow> ws option \<Rightarrow> bool \<Rightarrow> server \<Rightarrow> server" where
  "batchBroadcast message excludeWs priority s =
     (if priority then broadcastImmediate message excludeWs s
      else
        (let s1 = batchBroadcast_forEach (map fst (clients s)) message excludeWs s
         in if \<not> updateBatchTimer s1
            then s1\<lparr>updateBatchTimer := True, scheduledFlushes := Suc (scheduledFlushes s1)\<rparr>
            else s1))"

text \<open>
  \<^verbatim>\<open>flushBatchedUpdates\<close>: the loop over \<^verbatim>\<open>pendingUpdates\<close>, where a send that throws
  disconnects the recipient (and may delete queues not yet visited), then
  \<^verbatim>\<open>clear()\<close> and the reset of the timer variable.
\<close>

fun flush_forEach :: "ws list \<Rightarrow> server \<Rightarrow> server" where
  "flush_forEach [] s = s"
| "flush_forEach (w # rest) s =
     (case map_of (pendingUpdates s) w of
        None \<Rightarrow> flush_forEach rest s
      | Some messages \<Rightarrow>
          if readyState (socks s w) = OPEN then
            (if length messages = 1 then
               (case ws_send w (messages ! 0) s of
                  Inr s' \<Rightarrow> flush_forEach rest s'
                | Inl e \<Rightarrow> flush_forEach rest (handleClientDisconnect w s))
             else if length messages > 1 then
               (case ws_send w (BatchUpdate messages) s of
                  Inr s' \<Rightarrow> flush_forEach rest s'
                | Inl e \<Rightarrow> flush_forEach rest (handleClientDisconnect w s))
             else flush_forEach rest s)
          else flush_forEach rest s)"

definition flushBatchedUpdates :: "server \<Rightarrow> server" where
  "flushBatchedUpdates s =
     (let s1 = flush_forEach (map fst (pendingUpdates s)) s
      in s1\<lparr>pendingUpdates := [], updateBatchTimer := False\<rparr>)"

text \<open>The event loop runs a pending timeout: it is no longer pending, and the callback runs.\<close>

definition flush_timeout :: "server \<Rightarrow> server" where
  "flush_timeout s = flushBatchedUpdates (s\<lparr>scheduledFlushes := scheduledFlushes s - 1\<rparr>)"

subsection \<open>The change filter\<close>

definition hasSignificantChange :: "pstate option \<Rightarrow> pstate \<Rightarrow> bool" where
  "hasSignificantChange oldState newState =
     (case oldState of
        None \<Rightarrow> True
      | Some old \<Rightarrow>
          (let posChanged =
                 (js_gt (Math_abs (js_minus (vx (position old)) (vx (position newState))))
                    POSITION_THRESHOLD \<or>
                  js_gt (Math_abs (js_minus (vy (position old)) (vy (position newState))))
                    POSITION_THRESHOLD \<or>
                  js_gt (Math_abs (js_minus (vz (position old)) (vz (position newState))))
                    POSITION_THRESHOLD);
               rotChanged =
                 js_gt (Math_abs (js_minus (rotationY old) (rotationY newState)))
                   ROTATION_THRESHOLD;
               stateChanged =
                 (isMoving old \<noteq> isMoving newState \<or> isGrounded old \<noteq> isGrounded newState)
           in posChanged \<or> rotChanged \<or> stateChanged))"

subsection \<open>Liveness\<close>

definition heartbeat :: "ws \<Rightarrow> server \<Rightarrow> server" where
  "heartbeat this s = s\<lparr>socks := (socks s)(this := (socks s this)\<lparr>isAlive := True\<rparr>)\<rparr>"

text \<open>Lines 139 and 140: what the sweep does to a socket that did not answer.\<close>

definition liveness_timeout :: "ws \<Rightarrow> server \<Rightarrow> server" where
  "liveness_timeout w s = ws_terminate w (handleClientDisconnect w s)"

fun heartbeatInterval_forEach :: "ws list \<Rightarrow> server \<Rightarrow> server" where
  "heartbeatInterval_forEach [] s = s"
| "heartbeatInterval_forEach (w # rest) s =
     (if isAlive (socks s w) = False then
        heartbeatInterval_forEach rest (liveness_timeout w s)
      else
        (let s1 = s\<lparr>socks := (socks s)(w := (socks s w)\<lparr>isAlive := False\<rparr>)\<rparr>
         in heartbeatInterval_forEach rest
              (if readyState (socks s1 w) = OPEN then ws_ping w s1 else s1)))"

definition heartbeatInterval :: "server \<Rightarrow> server" where
  "heartbeatInterval s = heartbeatInterval_forEach (wssClients s) s"

subsection \<open>The connection handler\<close>

definition initialState :: "nat \<Rightarrow> pstate" where
  "initialState now =
     \<lparr>position = \<lparr>vx = Finite 0, vy = Finite 0, vz = Finite 0\<rparr>, rotationY = Finite 0,
      isMoving = False, isGrounded = True, velocityY = Finite 0,
      velocity = \<lparr>vx = Finite 0, vy = Finite 0, vz = Finite 0\<rparr>,
      timestamp = Some now, serverTimestamp = None, clientTimestamp = None\<rparr>"

definition existingPlayersData :: "ws \<Rightarrow> server \<Rightarrow> (string \<times> pstate) list" where
  "existingPlayersData w s =
     map (\<lambda>(clientWs, cd). (clientId cd, state cd))
       (filter (\<lambda>(clientWs, cd). clientWs \<noteq> w) (clients s))"

text \<open>
  The four times are the four calls of \<^verbatim>\<open>Date.now()\<close> (lines 159, 165, 166 and 178),
  \<open>newId\<close> is what \<^verbatim>\<open>generateUniqueId()\<close> returned. The three sends to the new
  socket stand outside any \<^verbatim>\<open>try\<close>: one that throws ends the handler with the
  exception.
\<close>

definition on_connection ::
  "ws \<Rightarrow> string \<Rightarrow> nat \<Rightarrow> nat \<Rightarrow> nat \<Rightarrow> nat \<Rightarrow> server \<Rightarrow> error + server" where
  "on_connection w newId tState tUpdate tHeartbeat tServer s =
     (let st0 = initialState tState;
          s1 = s\<lparr>clients := AList.update w
                  \<lparr>clientId = newId, state = st0, lastUpdate = tUpdate,
                   lastHeartbeat = tHeartbeat\<rparr> (clients s)\<rparr>;
          s2 = s1\<lparr>socks := (socks s1)(w := (socks s1 w)\<lparr>isAlive := True\<rparr>)\<rparr>
      in case ws_send w (AssignId newId st0 tServer) s2 of
           Inl e \<Rightarrow> Inl e
         | Inr s3 \<Rightarrow>
             (case (if existingPlayersData w s3 \<noteq> []
                    then ws_send w (ExistingPlayers (existingPlayersData w s3)) s3
                    else Inr s3) of
                Inl e \<Rightarrow> Inl e
              | Inr s4 \<Rightarrow>
                  (case (if chatHistory s4 \<noteq> []
                         then ws_send w (ChatHistoryFrame (chatHistory s4)) s4
                         else Inr s4) of
                     Inl e \<Rightarrow> Inl e
                   | Inr s5 \<Rightarrow>
                       Inr (broadcastImmediate (PlayerJoined newId st0) (Some w) s5))))"

subsection \<open>The message handler\<close>

definition validEmotes :: "string list" where
  "validEmotes = [''wave'', ''dance'']"

text \<open>Lines 232 to 236: push, then one shift when the array is longer than the maximum.\<close>

definition chatHistory_push :: "chatEntry \<Rightarrow> chatEntry list \<Rightarrow> chatEntry list" where
  "chatHistory_push chatEntry h =
     (let h' = h @ [chatEntry]
      in if length h' > MAX_CHAT_HISTORY then tl h' else h')"

text \<open>Line 214: \<^verbatim>\<open>message.state.timestamp || now\<close>.\<close>

definition timestamp_or :: "nat option \<Rightarrow> nat \<Rightarrow> nat" where
  "timestamp_or t now = (case t of None \<Rightarrow> now | Some v \<Rightarrow> if v = 0 then now else v)"

definition on_message :: "ws \<Rightarrow> nat \<Rightarrow> inbound \<Rightarrow> server \<Rightarrow> server" where
  "on_message w now msg s =
     (case msg of
        Malformed \<Rightarrow> s
      | _ \<Rightarrow>
        (case map_of (clients s) w of
           None \<Rightarrow> s
         | Some senderData0 \<Rightarrow>
             (let senderData = senderData0\<lparr>lastHeartbeat := now\<rparr>;
                  s1 = s\<lparr>clients := AList.update w senderData (clients s)\<rparr>
              in case msg of
                   PlayerUpdateIn st \<Rightarrow>
                     if hasSignificantChange (Some (state senderData)) st then
                       (let st' = st\<lparr>serverTimestamp := Some now,
                                     clientTimestamp := Some (timestamp_or (timestamp st) now)\<rparr>;
                            senderData' = senderData\<lparr>state := st', lastUpdate := now\<rparr>;
                            s2 = s1\<lparr>clients := AList.update w senderData' (clients s1)\<rparr>
                        in batchBroadcast (PlayerUpdate (clientId senderData') st') (Some w) False s2)
                     else s1
                 | ChatMessageIn text \<Rightarrow>
                     (let chatEntry = ChatEntry (clientId senderData) text now;
                          s2 = s1\<lparr>chatHistory := chatHistory_push chatEntry (chatHistory s1)\<rparr>
                      in broadcastImmediate (ChatMessage (clientId senderData) text now) None s2)
                 | EmoteCommandIn emote \<Rightarrow>
                     if emote \<in> set validEmotes then
                       broadcastImmediate (EmoteStart (clientId senderData) emote now) None s1
                     else s1
                 | PingIn clientTs \<Rightarrow>
                     (case ws_send w (Pong clientTs now) s1 of
                        Inl e \<Rightarrow> s1
                      | Inr s2 \<Rightarrow> s2)
                 | _ \<Rightarrow> s1)))"

subsection \<open>Close and error\<close>

text \<open>
  Before the program's \<^verbatim>\<open>close\<close> listener runs, the library has set the socket's
  state to closed and taken it out of \<^verbatim>\<open>wss.clients\<close>.
\<close>

definition on_close :: "ws \<Rightarrow> server \<Rightarrow> server" where
  "on_close w s =
     handleClientDisconnect w
       (s\<lparr>socks := (socks s)(w := (socks s w)\<lparr>readyState := CLOSED\<rparr>),
          wssClients := removeAll w (wssClients s)\<rparr>)"

definition on_error :: "ws \<Rightarrow> server \<Rightarrow> server" where
  "on_error w s = handleClientDisconnect w s"

text \<open>The three events that lead to \<^verbatim>\<open>handleClientDisconnect\<close>.\<close>

datatype trigger = CloseEvent | ErrorEvent | LivenessTimeout

fun fire :: "trigger \<Rightarrow> ws \<Rightarrow> server \<Rightarrow> server" where
  "fire CloseEvent w s = on_close w s"
| "fire ErrorEvent w s = on_error w s"
| "fire LivenessTimeout w s = liveness_timeout w s"

definition fire_all :: "trigger list \<Rightarrow> ws \<Rightarrow> server \<Rightarrow> server" where
  "fire_all ts w s = foldl (\<lambda>s' t. fire t w s') s ts"

subsection \<open>The states the server can reach\<close>

text \<open>Lines 44 to 47: the module's variables when the process starts.\<close>

definition initial_server :: server where
  "initial_server =
     \<lparr>clients = [], chatHistory = [], pendingUpdates = [], updateBatchTimer = False,
      scheduledFlushes = 0,
      socks = (\<lambda>w. \<lparr>readyState = CONNECTING, isAlive = False, sendFails = False\<rparr>),
      wssClients = [], sent = [], pinged = []\<rparr>"

text \<open>
  The library adds a new socket to \<^verbatim>\<open>wss.clients\<close> and then emits
  \<^verbatim>\<open>connection\<close>.
\<close>

definition connection_event ::
  "ws \<Rightarrow> string \<Rightarrow> nat \<Rightarrow> nat \<Rightarrow> nat \<Rightarrow> nat \<Rightarrow> server \<Rightarrow> error + server" where
  "connection_event w newId tState tUpdate tHeartbeat tServer s =
     on_connection w newId tState tUpdate tHeartbeat tServer
       (s\<lparr>wssClients := wssClients s @ [w]\<rparr>)"

text \<open>
  One rule for each event of the loop. The environment may change a socket's
  \<^verbatim>\<open>readyState\<close> and whether its sends fail at any time; a connection brings a
  socket object that is new and open; the batch timeout fires only when one is pending.
  A connection handler that throws ends the process, so it has no successor state.
\<close>

inductive reachable :: "server \<Rightarrow> bool" where
  start: "reachable initial_server"
| environment:
    "reachable s \<Longrightarrow>
     reachable (s\<lparr>socks := (socks s)(w := (socks s w)\<lparr>readyState := rs, sendFails := b\<rparr>)\<rparr>)"
| connection:
    "reachable s \<Longrightarrow> w \<notin> set (wssClients s) \<Longrightarrow> map_of (clients s) w = None \<Longrightarrow>
     readyState (socks s w) = OPEN \<Longrightarrow>
     connection_event w newId tState tUpdate tHeartbeat tServer s = Inr s' \<Longrightarrow>
     reachable s'"
| message: "reachable s \<Longrightarrow> reachable (on_message w now msg s)"
| close: "reachable s \<Longrightarrow> reachable (on_close w s)"
| error: "reachable s \<Longrightarrow> reachable (on_error w s)"
| pong: "reachable s \<Longrightarrow> reachable (heartbeat w s)"
| sweep: "reachable s \<Longrightarrow> reachable (heartbeatInterval s)"
| timeout: "reachable s \<Longrightarrow> 0 < scheduledFlushes s \<Longrightarrow> reachable (flush_timeout s)"

section \<open>Notions used in the statements, and example states\<close>

text \<open>
  The definitions of this section are not code of the repository: they name what the
  theorems observe (how often a frame was sent on a socket, which connections a
  broadcast reaches), single turns of the loops, and the concrete states on which the
  theorems are tried.
\<close>

subsection \<open>Observations\<close>

text \<open>How often \<^verbatim>\<open>send\<close> has accepted the frame \<open>f\<close> on the socket \<open>r\<close>.\<close>

definition delivered :: "ws \<Rightarrow> frame \<Rightarrow> server \<Rightarrow> nat" where
  "delivered r f s = count_list (sent s) (r, f)"

text \<open>
  The number of registered connections whose \<^verbatim>\<open>player_left\<close> frame is \<open>f\<close>. Ids are
  random, so two connections can share one; the number is 1 for the frame of a
  connection whose id no other registered connection has.
\<close>

definition leaving :: "frame \<Rightarrow> (ws \<times> clientData) list \<Rightarrow> nat" where
  "leaving f cl = length (filter (\<lambda>(k, cd). PlayerLeft (clientId cd) = f) cl)"

text \<open>
  A connection that every broadcast reaches: it is registered, its socket is open, and
  sends on it do not throw.
\<close>

definition healthy :: "ws \<Rightarrow> server \<Rightarrow> bool" where
  "healthy r s \<longleftrightarrow>
     map_of (clients s) r \<noteq> None \<and> readyState (socks s r) = OPEN \<and> \<not> sendFails (socks s r)"

text \<open>
  The keys of a JavaScript Map and the members of a Set are distinct, and a queue is
  only ever held for a registered connection.
\<close>

definition wellformed :: "server \<Rightarrow> bool" where
  "wellformed s \<longleftrightarrow>
     distinct (map fst (clients s)) \<and> distinct (map fst (pendingUpdates s)) \<and>
     distinct (wssClients s) \<and>
     fst ` set (pendingUpdates s) \<subseteq> fst ` set (clients s)"

text \<open>At most one timeout is pending, and the timer variable is set exactly when one is.\<close>

definition timer_inv :: "server \<Rightarrow> bool" where
  "timer_inv s \<longleftrightarrow>
     scheduledFlushes s \<le> 1 \<and> (updateBatchTimer s \<longleftrightarrow> scheduledFlushes s = 1)"

text \<open>What the flush sends for a queue: nothing, the one message, or one envelope.\<close>

definition flush_payload :: "frame list \<Rightarrow> frame option" where
  "flush_payload messages =
     (if length messages = 1 then Some (messages ! 0)
      else if length messages > 1 then Some (BatchUpdate messages)
      else None)"

text \<open>
  One turn of the loop of \<^verbatim>\<open>flushBatchedUpdates\<close> (lemma \<open>flush_forEach_Cons\<close>).
\<close>

definition flush_turn :: "ws \<Rightarrow> server \<Rightarrow> server" where
  "flush_turn w s =
     (case map_of (pendingUpdates s) w of
        None \<Rightarrow> s
      | Some messages \<Rightarrow>
          if readyState (socks s w) = OPEN then
            (case flush_payload messages of
               None \<Rightarrow> s
             | Some data \<Rightarrow>
                 if sendFails (socks s w) then handleClientDisconnect w s
                 else s\<lparr>sent := sent s @ [(w, data)]\<rparr>)
          else s)"

text \<open>The frame \<open>f\<close> is what the flush sends for the queue of \<open>r\<close>.\<close>

definition expected :: "ws \<Rightarrow> server \<Rightarrow> frame \<Rightarrow> bool" where
  "expected r s f \<longleftrightarrow>
     (case map_of (pendingUpdates s) r of
        None \<Rightarrow> False
      | Some messages \<Rightarrow> flush_payload messages = Some f)"

text \<open>
  The three frames the connection handler sends on the new socket, and the state in
  which it starts its broadcast (lemma \<open>on_connection_open\<close>).
\<close>

definition connection_prefix :: "ws \<Rightarrow> string \<Rightarrow> nat \<Rightarrow> nat \<Rightarrow> server \<Rightarrow> (ws \<times> frame) list" where
  "connection_prefix w newId tState tServer s =
     [(w, AssignId newId (initialState tState) tServer)] @
     (if existingPlayersData w s = [] then []
      else [(w, ExistingPlayers (existingPlayersData w s))]) @
     (if chatHistory s = [] then [] else [(w, ChatHistoryFrame (chatHistory s))])"

definition registered_new ::
  "ws \<Rightarrow> string \<Rightarrow> nat \<Rightarrow> nat \<Rightarrow> nat \<Rightarrow> nat \<Rightarrow> server \<Rightarrow> server" where
  "registered_new w newId tState tUpdate tHeartbeat tServer s =
     s\<lparr>clients := AList.update w
          \<lparr>clientId = newId, state = initialState tState, lastUpdate = tUpdate,
           lastHeartbeat = tHeartbeat\<rparr> (clients s),
       socks := (socks s)(w := (socks s w)\<lparr>isAlive := True\<rparr>),
       sent := sent s @ connection_prefix w newId tState tServer s\<rparr>"

text \<open>
  One turn of the loop of the heartbeat interval (lemma
  \<open>heartbeatInterval_forEach_Cons\<close>).
\<close>

definition heartbeat_turn :: "ws \<Rightarrow> server \<Rightarrow> server" where
  "heartbeat_turn w s =
     (if isAlive (socks s w) = False then liveness_timeout w s
      else
        (let s1 = s\<lparr>socks := (socks s)(w := (socks s w)\<lparr>isAlive := False\<rparr>)\<rparr>
         in if readyState (socks s1 w) = OPEN then ws_ping w s1 else s1))"

text \<open>Pongs arriving on the sockets of a list, one after the other.\<close>

definition pongs :: "ws list \<Rightarrow> server \<Rightarrow> server" where
  "pongs acks s = foldl (\<lambda>s' k. heartbeat k s') s acks"

text \<open>
  Two consecutive sweeps, with pongs arriving in between on the sockets of \<open>acks\<close>.
\<close>

definition two_sweeps :: "ws list \<Rightarrow> server \<Rightarrow> server" where
  "two_sweeps acks s = heartbeatInterval (pongs acks (heartbeatInterval s))"

text \<open>The socket is unregistered and terminated.\<close>

definition gone :: "ws \<Rightarrow> server \<Rightarrow> bool" where
  "gone w s \<longleftrightarrow>
     map_of (clients s) w = None \<and>
     (readyState (socks s w) = CLOSING \<or> readyState (socks s w) = CLOSED)"

subsection \<open>Example states\<close>

text \<open>
  The initial state of a connection made at time 1000, an update that moves it by 0.0005
  along x, and one that moves it by 0.01. As binary64 values, 0.0005 is
  4611686018427388 times \<^verbatim>\<open>2^-63\<close> and 0.01 is 5764607523034235 times
  \<^verbatim>\<open>2^-59\<close>.
\<close>

definition ex_old :: pstate where
  "ex_old = initialState 1000"

definition ex_new :: pstate where
  "ex_new =
     (initialState 2000)\<lparr>position :=
        \<lparr>vx = binary64 4611686018427388 (- 63), vy = Finite 0, vz = Finite 0\<rparr>\<rparr>"

definition ex_moved :: pstate where
  "ex_moved =
     (initialState 2000)\<lparr>position :=
        \<lparr>vx = binary64 5764607523034235 (- 59), vy = Finite 0, vz = Finite 0\<rparr>\<rparr>"

text \<open>Two registered, open connections in their initial state.\<close>

definition ex_alice :: clientData where
  "ex_alice = \<lparr>clientId = ''aaaaaa'', state = initialState 1000, lastUpdate = 1000,
                lastHeartbeat = 1000\<rparr>"

definition ex_bob :: clientData where
  "ex_bob = \<lparr>clientId = ''bbbbbb'', state = initialState 1500, lastUpdate = 1500,
              lastHeartbeat = 1500\<rparr>"

definition two_clients :: server where
  "two_clients =
     initial_server\<lparr>
       clients := [(1, ex_alice), (2, ex_bob)],
       socks := (\<lambda>w. \<lparr>readyState = OPEN, isAlive = True, sendFails = False\<rparr>),
       wssClients := [1, 2]\<rparr>"

text \<open>
  Socket 1 is open and still in \<^verbatim>\<open>wss.clients\<close> but no longer in the registry (its
  disconnect was handled after a send to it threw).
\<close>

definition bob_only :: server where
  "bob_only =
     initial_server\<lparr>
       clients := [(2, ex_bob)],
       socks := (\<lambda>w. \<lparr>readyState = OPEN, isAlive = True, sendFails = False\<rparr>),
       wssClients := [1, 2]\<rparr>"

text \<open>Two queued updates for connection 2, the batch timeout pending.\<close>

definition ex_update1 :: frame where
  "ex_update1 = PlayerUpdate ''aaaaaa'' ex_new"

definition ex_update2 :: frame where
  "ex_update2 = PlayerUpdate ''aaaaaa'' (ex_new\<lparr>rotationY := binary64 1 0\<rparr>)"

definition two_queued :: server where
  "two_queued =
     two_clients\<lparr>pendingUpdates := [(2, [ex_update1, ex_update2])], updateBatchTimer := True,
                 scheduledFlushes := 1\<rparr>"

text \<open>
  A run from the start: the first socket opens and connects at time 1000 with id
  \<open>aaaaaa\<close> (\<open>joined1\<close>); it then sends an update that moves it by 0.01 along x
  (\<open>moved1\<close>).
\<close>

definition opened1 :: server where
  "opened1 =
     initial_server\<lparr>socks := (socks initial_server)
       (1 := (socks initial_server 1)\<lparr>readyState := OPEN, sendFails := False\<rparr>)\<rparr>"

definition joined1 :: server where
  "joined1 =
     \<lparr>clients = [(1, ex_alice)], chatHistory = [], pendingUpdates = [],
      updateBatchTimer = False, scheduledFlushes = 0,
      socks = (socks initial_server)
        (1 := \<lparr>readyState = OPEN, isAlive = True, sendFails = False\<rparr>),
      wssClients = [1], sent = [(1, AssignId ''aaaaaa'' (initialState 1000) 1000)],
      pinged = []\<rparr>"

definition moved1 :: server where
  "moved1 = on_message 1 2000 (PlayerUpdateIn ex_moved) joined1"

text \<open>
  The run goes on: a second socket opens and connects at time 1500 with id \<open>bbbbbb\<close>
  (\<open>joined2\<close>); the first connection moves by 0.01 along x at time 2000, which queues
  an update for the second (\<open>queued2\<close>); then the second socket begins to close, the
  \<^verbatim>\<open>close\<close> event not yet emitted (\<open>closing2\<close>).
\<close>

definition opened2 :: server where
  "opened2 =
     joined1\<lparr>socks := (socks joined1)
       (2 := (socks joined1 2)\<lparr>readyState := OPEN, sendFails := False\<rparr>)\<rparr>"

definition joined2 :: server where
  "joined2 =
     broadcastImmediate (PlayerJoined ''bbbbbb'' (initialState 1500)) (Some 2)
       (registered_new 2 ''bbbbbb'' 1500 1500 1500 1500
          (opened2\<lparr>wssClients := wssClients opened2 @ [2]\<rparr>))"

definition queued2 :: server where
  "queued2 = on_message 1 2000 (PlayerUpdateIn ex_moved) joined2"

definition closing2 :: server where
  "closing2 =
     queued2\<lparr>socks := (socks queued2)
       (2 := (socks queued2 2)\<lparr>readyState := CLOSING, sendFails := False\<rparr>)\<rparr>"

definition ex_stamped :: pstate where
  "ex_stamped = ex_moved\<lparr>serverTimestamp := Some 2000, clientTimestamp := Some 2000\<rparr>"

text \<open>
  The first connection is registered and has chatted once; a second socket has opened.
\<close>

definition lobby :: server where
  "lobby =
     joined1\<lparr>chatHistory := [ChatEntry ''aaaaaa'' ''hello'' 1200],
             socks := (socks joined1)
               (2 := \<lparr>readyState = OPEN, isAlive = False, sendFails = False\<rparr>)\<rparr>"

text \<open>Twenty-five chat entries, numbered by their time stamps.\<close>

definition ex_history :: "chatEntry list" where
  "ex_history = map (\<lambda>n. ChatEntry ''aaaaaa'' ''hello'' n) [0..<25]"

section \<open>Lemmas\<close>

subsection \<open>Rounding\<close>

lemma div_between:
  fixes a :: int
  assumes c: "0 < c" and lo: "L * c \<le> a" and hi: "a < U * c"
  shows "L \<le> a div c" and "a div c < U"
proof -
  have eq: "a = a div c * c + a mod c" by (rule div_mult_mod_eq[symmetric])
  have r: "0 \<le> a mod c" "a mod c < c" using c by simp_all
  have "a < a div c * c + c" using eq r(2) by linarith
  then have "a < (a div c + 1) * c" by (simp add: distrib_right)
  with lo have "L * c < (a div c + 1) * c" by linarith
  then have "L < a div c + 1" using c by (simp add: mult_less_cancel_right)
  then show "L \<le> a div c" by simp
  have "a div c * c \<le> a" using eq r(1) by linarith
  with hi have "a div c * c < U * c" by linarith
  then show "a div c < U" using c by (simp add: mult_less_cancel_right)
qed

text \<open>The parts of a magnitude of \<^verbatim>\<open>2^53\<close> units or more.\<close>

lemma round_magnitude_parts:
  assumes big: "\<not> a < 2 ^ 53"
  defines "sh \<equiv> nat (bitlen a - 53)"
  defines "q \<equiv> a div 2 ^ sh"
  defines "r \<equiv> a mod 2 ^ sh"
  shows "a = q * 2 ^ sh + r" and "0 \<le> r" and "r < 2 ^ sh"
    and "2 ^ 52 \<le> q" and "q < 2 ^ 53" and "1 \<le> sh"
    and "round_magnitude a =
      (if r < 2 ^ (sh - 1) then q else if r > 2 ^ (sh - 1) then q + 1
       else if even q then q else q + 1) * 2 ^ sh"
proof -
  have pos: "0 < a" using big by (simp add: not_less)
  from bitlen_bounds[OF pos] have lo: "2 ^ nat (bitlen a - 1) \<le> a" and hi: "a < 2 ^ nat (bitlen a)"
    by simp_all
  have "\<not> bitlen a \<le> 53"
    using big pos by (simp add: bitlen_le_iff_power)
  then have b: "54 \<le> bitlen a" by simp
  then show sh1: "1 \<le> sh" unfolding sh_def by simp
  have e1: "nat (bitlen a - 1) = 52 + sh" and e2: "nat (bitlen a) = 53 + sh"
    unfolding sh_def using b by simp_all
  show "a = q * 2 ^ sh + r" unfolding q_def r_def by (rule div_mult_mod_eq[symmetric])
  show "0 \<le> r" unfolding r_def by simp
  show "r < 2 ^ sh" unfolding r_def by simp
  have "2 ^ 52 * 2 ^ sh \<le> a" using lo unfolding e1 by (simp only: power_add)
  moreover have "a < 2 ^ 53 * 2 ^ sh" using hi unfolding e2 by (simp only: power_add)
  moreover have "(0::int) < 2 ^ sh" by simp
  ultimately show "2 ^ 52 \<le> q" and "q < 2 ^ 53" unfolding q_def
    using div_between[of "2 ^ sh" "2 ^ 52" a "2 ^ 53"] by blast+
  show "round_magnitude a =
      (if r < 2 ^ (sh - 1) then q else if r > 2 ^ (sh - 1) then q + 1
       else if even q then q else q + 1) * 2 ^ sh"
    unfolding round_magnitude_def Let_def sh_def q_def r_def using big by (simp only: if_False)
qed

lemma round_magnitude_small: "a < 2 ^ 53 \<Longrightarrow> round_magnitude a = a"
  by (simp add: round_magnitude_def)

lemma round_magnitude_between:
  assumes big: "\<not> a < 2 ^ 53"
  shows "\<exists>k. round_magnitude a = k * 2 ^ nat (bitlen a - 53) \<and>
             a div 2 ^ nat (bitlen a - 53) \<le> k \<and> k \<le> a div 2 ^ nat (bitlen a - 53) + 1"
  using round_magnitude_parts(7)[OF big] by (auto split: if_splits)

lemma round_magnitude_nonneg: "0 \<le> a \<Longrightarrow> 0 \<le> round_magnitude a"
proof (cases "a < 2 ^ 53")
  case True
  then show "0 \<le> a \<Longrightarrow> 0 \<le> round_magnitude a" by (simp add: round_magnitude_small)
next
  case False
  from round_magnitude_between[OF False] obtain k where
    k: "round_magnitude a = k * 2 ^ nat (bitlen a - 53)" "a div 2 ^ nat (bitlen a - 53) \<le> k"
    by blast
  have "(0::int) \<le> 2 ^ 52" by simp
  with round_magnitude_parts(4)[OF False] k(2) have "0 \<le> k" by linarith
  then show ?thesis unfolding k(1) by simp
qed

subsection \<open>Subtraction without rounding\<close>

text \<open>
  A difference that has at most 53 significant bits is a binary64 value, and the
  subtraction returns it.
\<close>

lemma round_magnitude_exact:
  assumes m: "0 \<le> m" "m < 2 ^ 53"
  shows "round_magnitude (m * 2 ^ n) = m * 2 ^ n"
proof (cases "m * 2 ^ n < 2 ^ 53")
  case True
  then show ?thesis by (rule round_magnitude_small)
next
  case False
  define a where "a = m * 2 ^ n"
  define sh where "sh = nat (bitlen a - 53)"
  from False m(1) have mpos: "0 < m" by (cases "m = 0") auto
  have bl: "bitlen a = bitlen m + int n" unfolding a_def using mpos by simp
  have "bitlen m \<le> 53"
    using m mpos by (simp add: bitlen_le_iff_power)
  with bl have "sh \<le> n" unfolding sh_def by linarith
  then obtain d where d: "n = d + sh" by (metis le_add_diff_inverse2)
  have split: "a = (m * 2 ^ d) * 2 ^ sh"
    unfolding a_def d by (simp add: power_add)
  have r0: "a mod 2 ^ sh = 0" by (subst split) simp
  have q: "a div 2 ^ sh * 2 ^ sh = a"
    by (subst (1 2) split) simp
  have pos: "(0::int) < 2 ^ (sh - 1)" by simp
  from round_magnitude_parts(7)[OF False, folded a_def, folded sh_def]
  have "round_magnitude a = a div 2 ^ sh * 2 ^ sh"
    unfolding r0 using pos by (simp only: if_True)
  then have "round_magnitude a = a" unfolding q .
  then show ?thesis unfolding a_def .
qed

lemma round64_exact:
  assumes m: "\<bar>m\<bar> < 2 ^ 53" and n: "n \<le> 2045"
  shows "round64 (m * 2 ^ n) = Finite (m * 2 ^ n)"
proof -
  define a where "a = \<bar>m\<bar> * 2 ^ n"
  have a: "\<bar>m * 2 ^ n\<bar> = a" by (simp add: abs_mult a_def)
  have v: "round_magnitude a = a"
    unfolding a_def using m by (intro round_magnitude_exact) simp_all
  have small: "\<not> 2 ^ 2098 \<le> a"
  proof -
    have "a < 2 ^ 53 * 2 ^ n" unfolding a_def using m by (simp add: mult_strict_right_mono)
    also have "\<dots> = 2 ^ (53 + n)" by (simp only: power_add)
    also have "\<dots> \<le> 2 ^ 2098" using n by (intro power_increasing) simp_all
    finally show ?thesis by (simp only: not_le)
  qed
  have r: "round64 (m * 2 ^ n) = Finite (if m * 2 ^ n < 0 then - a else a)"
    unfolding round64_def Let_def a v using small by (simp only: if_False)
  have "(if m * 2 ^ n < 0 then - a else a) = m * 2 ^ n"
    unfolding a_def by (simp add: mult_less_0_iff abs_if)
  with r show ?thesis by simp
qed

lemma round64_zero: "round64 0 = Finite 0"
  by (simp add: round64_def round_magnitude_def)

lemma binary64_zero [simp]: "binary64 0 e = Finite 0"
  by (simp add: binary64_def)

lemma binary64_minus:
  assumes "\<bar>a - b\<bar> < 2 ^ 53" and "- 1074 \<le> e" and "e \<le> 971"
  shows "js_minus (binary64 a e) (binary64 b e) = binary64 (a - b) e"
proof -
  have "nat (e + 1074) \<le> 2045" using assms(2,3) by simp
  from round64_exact[OF assms(1) this] show ?thesis
    by (simp add: binary64_def left_diff_distrib)
qed

lemma js_minus_zero_binary64:
  assumes "\<bar>b\<bar> < 2 ^ 53" and "- 1074 \<le> e" and "e \<le> 971"
  shows "js_minus (Finite 0) (binary64 b e) = binary64 (- b) e"
  using binary64_minus[of 0 b e] assms by simp

lemma Math_abs_binary64: "Math_abs (binary64 m e) = binary64 \<bar>m\<bar> e"
  by (simp add: binary64_def abs_mult)

lemma js_gt_binary64:
  "js_gt (binary64 a e) (binary64 b f) = (a * 2 ^ nat (e + 1074) > b * 2 ^ nat (f + 1074))"
  by (simp add: binary64_def)

lemma js_gt_Finite_binary64:
  "js_gt (Finite a) (binary64 b f) = (a > b * 2 ^ nat (f + 1074))"
  by (simp add: binary64_def)

lemma js_gt_same_not: "\<not> js_gt (Math_abs (js_minus x x)) (binary64 4611686018427388 (- 62))"
  by (cases x) (simp_all add: round64_zero js_gt_Finite_binary64)

subsection \<open>The threshold in exact terms\<close>

text \<open>
  The literal 0.001 is 4611686018427388 times \<^verbatim>\<open>2^1012\<close> units, and half a unit of
  its last place is \<^verbatim>\<open>2^1011\<close> units. Its significand is even, so a magnitude
  rounds to more than the literal exactly when it is more than the literal and half a
  unit of its last place.
\<close>

lemma round_magnitude_threshold:
  "round_magnitude a > 4611686018427388 * 2 ^ 1012 \<longleftrightarrow>
   a > 4611686018427388 * 2 ^ 1012 + 2 ^ 1011"
proof -
  define M :: int where "M = 4611686018427388"
  define P :: int where "P = 2 ^ 1011"
  define B :: int where "B = 2 * P"
  define T :: int where "T = M * B"
  have T: "4611686018427388 * 2 ^ 1012 = T" "(2::int) ^ 1011 = P"
    unfolding T_def B_def P_def M_def by simp_all
  have P: "0 < P" unfolding P_def by simp
  have B: "0 < B" "B = 2 * P" using P unfolding B_def by simp_all
  have M: "2 ^ 52 \<le> M" "M + 1 \<le> 2 ^ 53" "even M" "0 < M" unfolding M_def by simp_all
  have goal: "round_magnitude a > T \<longleftrightarrow> a > T + P"
  proof (cases "a < 2 ^ 53")
    case True
    have "(2::int) ^ 53 \<le> 2 ^ 1011" by (rule power_increasing) simp_all
    then have "(2::int) ^ 53 \<le> P" unfolding P_def .
    moreover have "1 * B \<le> M * B" using M(4) B(1) by (intro mult_right_mono) simp_all
    ultimately have "a < T" using True B P unfolding T_def by linarith
    with True P show ?thesis by (simp add: round_magnitude_small)
  next
    case False
    define sh where "sh = nat (bitlen a - 53)"
    define q where "q = a div 2 ^ sh"
    define r where "r = a mod 2 ^ sh"
    define c :: int where "c = 2 ^ sh"
    note parts = round_magnitude_parts[OF False, folded sh_def, folded q_def r_def, folded c_def]
    from round_magnitude_between[OF False, folded sh_def, folded q_def, folded c_def]
    obtain k where k: "round_magnitude a = k * c" "q \<le> k" "k \<le> q + 1" by blast
    have c: "0 < c" unfolding c_def by simp
    have a: "a = q * c + r" "0 \<le> r" "r < c" using parts(1-3) .
    have q: "2 ^ 52 \<le> q" "q < 2 ^ 53" using parts(4,5) .
    consider "sh < 1012" | "sh = 1012" | "1012 < sh" by linarith
    then show ?thesis
    proof cases
      case 1
      then have "sh \<le> 1011" by simp
      then have "(2::int) ^ sh \<le> 2 ^ 1011" by (intro power_increasing) simp_all
      then have cP: "c \<le> P" unfolding c_def P_def .
      have "k \<le> 2 ^ 53" using k(3) q(2) by linarith
      then have "k * c \<le> 2 ^ 53 * c" using c by (intro mult_right_mono) simp_all
      also have "\<dots> \<le> 2 ^ 53 * P" using cP by (intro mult_left_mono) simp_all
      also have "\<dots> = 2 ^ 52 * B" unfolding B(2) by simp
      also have "\<dots> \<le> M * B" using M(1) B(1) by (intro mult_right_mono) simp_all
      finally have v: "k * c \<le> T" unfolding T_def .
      have "q * c \<le> k * c" using k(2) c by (intro mult_right_mono) simp_all
      then have "a < k * c + c" using a by linarith
      moreover have "(q + 1) * c \<le> 2 ^ 53 * c" using q(2) c by (intro mult_right_mono) simp_all
      then have "q * c + c \<le> 2 ^ 53 * c" by (simp add: distrib_right)
      moreover have "2 ^ 53 * c \<le> 2 ^ 53 * P" using cP by (intro mult_left_mono) simp_all
      moreover have "2 ^ 53 * P = 2 ^ 52 * B" unfolding B(2) by simp
      moreover have "2 ^ 52 * B \<le> M * B" using M(1) B(1) by (intro mult_right_mono) simp_all
      ultimately have "a < T + P" using a P unfolding T_def by linarith
      with v show ?thesis unfolding k(1) by linarith
    next
      case 3
      then have "1013 \<le> sh" by simp
      then have "(2::int) ^ 1013 \<le> 2 ^ sh" by (intro power_increasing) simp_all
      moreover have "(2::int) ^ 1013 = 4 * P" unfolding P_def by simp
      ultimately have cP: "4 * P \<le> c" unfolding c_def by simp
      have "2 ^ 52 * (4 * P) \<le> 2 ^ 52 * c" using cP by (intro mult_left_mono) simp_all
      moreover have "2 ^ 52 * c \<le> q * c" using q(1) c by (intro mult_right_mono) simp_all
      moreover have "q * c \<le> k * c" using k(2) c by (intro mult_right_mono) simp_all
      moreover have "(M + 1) * B \<le> 2 ^ 53 * B" using M(2) B(1) by (intro mult_right_mono) simp_all
      then have "M * B + B \<le> 2 ^ 53 * B" by (simp add: distrib_right)
      moreover have "2 ^ 53 * B = 2 ^ 52 * (4 * P)" unfolding B(2) by simp
      ultimately have "T + B \<le> q * c" "T + B \<le> k * c" unfolding T_def by linarith+
      then show ?thesis unfolding k(1) using a B P by linarith
    next
      case 2
      then have cB: "c = B" unfolding c_def B_def P_def by simp
      have half: "(2::int) ^ (sh - 1) = P" unfolding 2 P_def by simp
      note rm = parts(7)[unfolded half, folded c_def]
      consider "q < M" | "q = M" | "M < q" by linarith
      then show ?thesis
      proof cases
        case 1
        then have "k \<le> M" "q + 1 \<le> M" using k(3) by simp_all
        then have "k * B \<le> M * B" "(q + 1) * B \<le> M * B"
          using B(1) by (simp_all add: mult_right_mono)
        then have "k * B \<le> T" "q * B + B \<le> T" unfolding T_def by (simp_all add: distrib_right)
        then show ?thesis unfolding k(1) cB using a P unfolding cB by linarith
      next
        case 3
        then have "M + 1 \<le> q" "M + 1 \<le> k" using k(2) by simp_all
        then have "(M + 1) * B \<le> q * B" "(M + 1) * B \<le> k * B"
          using B(1) by (simp_all add: mult_right_mono)
        then have "T + B \<le> q * B" "T + B \<le> k * B" unfolding T_def by (simp_all add: distrib_right)
        then show ?thesis unfolding k(1) cB using a B P unfolding cB by linarith
      next
        case 2
        have v: "round_magnitude a = (if r \<le> P then M else M + 1) * B"
          using rm M(3) unfolding 2 cB by (simp add: not_less)
        have "(M + 1) * B = T + B" unfolding T_def by (simp add: distrib_right)
        then have "round_magnitude a > T \<longleftrightarrow> r > P"
          unfolding v using B(1) by (simp add: T_def)
        moreover have "a > T + P \<longleftrightarrow> r > P"
          using a(1) unfolding 2 cB T_def by linarith
        ultimately show ?thesis by blast
      qed
    qed
  qed
  show ?thesis using goal unfolding T .
qed

lemma Math_abs_round64: "Math_abs (round64 d) = round64 \<bar>d\<bar>"
  using round_magnitude_nonneg[of "\<bar>d\<bar>"]
  by (simp add: round64_def Let_def)

lemma js_gt_round64_threshold:
  "js_gt (Math_abs (js_minus (Finite x) (Finite y))) (binary64 4611686018427388 (- 62)) \<longleftrightarrow>
   \<bar>x - y\<bar> > 4611686018427388 * 2 ^ 1012 + 2 ^ 1011"
proof -
  define T :: int where "T = 4611686018427388 * 2 ^ 1012"
  define v where "v = round_magnitude \<bar>x - y\<bar>"
  have b: "binary64 4611686018427388 (- 62) = Finite T"
    unfolding T_def binary64_def by simp
  have "T < 2 ^ 2098" unfolding T_def by simp
  then have "js_gt (round64 \<bar>x - y\<bar>) (Finite T) \<longleftrightarrow> v > T"
    using round_magnitude_nonneg[of "\<bar>x - y\<bar>"]
    by (simp add: round64_def Let_def v_def)
  with round_magnitude_threshold[of "\<bar>x - y\<bar>"] show ?thesis
    unfolding b v_def T_def by (simp add: Math_abs_round64)
qed

subsection \<open>The example updates\<close>

lemma ex_new_insignificant: "\<not> hasSignificantChange (Some (initialState t)) ex_new"
  by (simp add: hasSignificantChange_def ex_new_def initialState_def POSITION_THRESHOLD_def
      ROTATION_THRESHOLD_def js_minus_zero_binary64 Math_abs_binary64 js_gt_binary64
      js_gt_Finite_binary64 round64_zero)

lemma ex_moved_significant: "hasSignificantChange (Some (initialState t)) ex_moved"
  by (simp add: hasSignificantChange_def ex_moved_def initialState_def POSITION_THRESHOLD_def
      ROTATION_THRESHOLD_def js_minus_zero_binary64 Math_abs_binary64 js_gt_binary64
      js_gt_Finite_binary64 round64_zero)

lemma ex_moved_timestamp: "timestamp ex_moved = Some 2000"
  by (simp add: ex_moved_def initialState_def)

subsection \<open>The broadcast loop\<close>

lemma ws_send_OPEN:
  "readyState (socks s w) = OPEN \<Longrightarrow>
     ws_send w m s = (if sendFails (socks s w) then Inl SendError
                      else Inr (s\<lparr>sent := sent s @ [(w, m)]\<rparr>))"
  by (simp add: ws_send_def)

text \<open>The three ways one turn of the broadcast loop can go.\<close>

lemma forEach_skip:
  "map_of (clients s) w = None \<or> Some w = ex \<or> readyState (socks s w) \<noteq> OPEN \<Longrightarrow>
     broadcastImmediate_forEach (w # rest) m ex s = broadcastImmediate_forEach rest m ex s"
  by (auto simp: broadcastImmediate_forEach.simps(2) split: option.splits)

lemma forEach_send:
  "map_of (clients s) w = Some cd \<Longrightarrow> Some w \<noteq> ex \<Longrightarrow> readyState (socks s w) = OPEN \<Longrightarrow>
   \<not> sendFails (socks s w) \<Longrightarrow>
     broadcastImmediate_forEach (w # rest) m ex s =
       broadcastImmediate_forEach rest m ex (s\<lparr>sent := sent s @ [(w, m)]\<rparr>)"
  by (simp add: broadcastImmediate_forEach.simps(2) ws_send_OPEN)

lemma forEach_throw:
  "map_of (clients s) w = Some cd \<Longrightarrow> Some w \<noteq> ex \<Longrightarrow> readyState (socks s w) = OPEN \<Longrightarrow>
   sendFails (socks s w) \<Longrightarrow>
     broadcastImmediate_forEach (w # rest) m ex s =
       broadcastImmediate_forEach rest m ex (handleClientDisconnect w s)"
  by (simp add: broadcastImmediate_forEach.simps(2) ws_send_OPEN)

lemma disconnect_absent:
  "map_of (clients s) w = None \<Longrightarrow> handleClientDisconnect w s = s"
  by (simp add: handleClientDisconnect.simps)

lemma disconnect_present:
  "map_of (clients s) w = Some cd \<Longrightarrow>
     handleClientDisconnect w s =
       broadcastImmediate_forEach (map fst (AList.delete w (clients s)))
         (PlayerLeft (clientId cd)) None
         (s\<lparr>clients := AList.delete w (clients s),
            pendingUpdates := AList.delete w (pendingUpdates s)\<rparr>)"
  by (simp add: handleClientDisconnect.simps)

text \<open>An induction rule over both functions with one case for each way.\<close>

lemma broadcast_induct [case_names Nil skip send throw absent present]:
  assumes "\<And>m ex s. P [] m ex s"
    and "\<And>w rest m ex s.
           map_of (clients s) w = None \<or> Some w = ex \<or> readyState (socks s w) \<noteq> OPEN \<Longrightarrow>
           P rest m ex s \<Longrightarrow> P (w # rest) m ex s"
    and "\<And>w rest m ex s cd.
           map_of (clients s) w = Some cd \<Longrightarrow> Some w \<noteq> ex \<Longrightarrow>
           readyState (socks s w) = OPEN \<Longrightarrow> \<not> sendFails (socks s w) \<Longrightarrow>
           P rest m ex (s\<lparr>sent := sent s @ [(w, m)]\<rparr>) \<Longrightarrow> P (w # rest) m ex s"
    and "\<And>w rest m ex s cd.
           map_of (clients s) w = Some cd \<Longrightarrow> Some w \<noteq> ex \<Longrightarrow>
           readyState (socks s w) = OPEN \<Longrightarrow> sendFails (socks s w) \<Longrightarrow>
           Q w s \<Longrightarrow> P rest m ex (handleClientDisconnect w s) \<Longrightarrow> P (w # rest) m ex s"
    and "\<And>w s. map_of (clients s) w = None \<Longrightarrow> Q w s"
    and "\<And>w s cd.
           map_of (clients s) w = Some cd \<Longrightarrow>
           P (map fst (AList.delete w (clients s))) (PlayerLeft (clientId cd)) None
             (s\<lparr>clients := AList.delete w (clients s),
                pendingUpdates := AList.delete w (pendingUpdates s)\<rparr>) \<Longrightarrow>
           Q w s"
  shows "P ks m ex s" and "Q w s"
proof (induction ks m ex s and w s rule: broadcastImmediate_forEach_handleClientDisconnect.induct)
  case (1 messageStr excludeWs s)
  show ?case by (rule assms(1))
next
  case (2 w rest messageStr excludeWs s)
  show ?case
  proof (cases "map_of (clients s) w")
    case None
    then show ?thesis using 2(1) assms(2) by blast
  next
    case (Some cd)
    show ?thesis
    proof (cases "Some w \<noteq> excludeWs \<and> readyState (socks s w) = OPEN")
      case False
      then show ?thesis using 2(5)[OF Some False] assms(2)[of s w excludeWs rest messageStr]
        by blast
    next
      case True
      show ?thesis
      proof (cases "sendFails (socks s w)")
        case True': True
        have e: "ws_send w messageStr s = Inl SendError"
          using True True' by (simp add: ws_send_OPEN)
        show ?thesis
          using assms(4)[OF Some _ _ True' 2(2)[OF Some True e] 2(3)[OF Some True e]] True
          by blast
      next
        case False
        have e: "ws_send w messageStr s = Inr (s\<lparr>sent := sent s @ [(w, messageStr)]\<rparr>)"
          using True False by (simp add: ws_send_OPEN)
        show ?thesis
          using assms(3)[OF Some _ _ False 2(4)[OF Some True e]] True by blast
      qed
    qed
  qed
next
  case (3 w s)
  show ?case
  proof (cases "map_of (clients s) w")
    case None
    then show ?thesis by (rule assms(5))
  next
    case (Some cd)
    show ?thesis
      using assms(6)[OF Some] 3[OF Some refl] by simp
  qed
qed

lemma broadcast_frame:
  "chatHistory (broadcastImmediate_forEach ks m ex s) = chatHistory s \<and>
   updateBatchTimer (broadcastImmediate_forEach ks m ex s) = updateBatchTimer s \<and>
   scheduledFlushes (broadcastImmediate_forEach ks m ex s) = scheduledFlushes s \<and>
   socks (broadcastImmediate_forEach ks m ex s) = socks s \<and>
   wssClients (broadcastImmediate_forEach ks m ex s) = wssClients s \<and>
   pinged (broadcastImmediate_forEach ks m ex s) = pinged s"
  "chatHistory (handleClientDisconnect w s) = chatHistory s \<and>
   updateBatchTimer (handleClientDisconnect w s) = updateBatchTimer s \<and>
   scheduledFlushes (handleClientDisconnect w s) = scheduledFlushes s \<and>
   socks (handleClientDisconnect w s) = socks s \<and>
   wssClients (handleClientDisconnect w s) = wssClients s \<and>
   pinged (handleClientDisconnect w s) = pinged s"
proof (induction ks m ex s and w s rule: broadcast_induct)
  case (Nil m ex s)
  show ?case by simp
next
  case (skip w rest m ex s)
  then show ?case by (simp add: forEach_skip)
next
  case (send w rest m ex s cd)
  then show ?case by (simp add: forEach_send)
next
  case (throw w rest m ex s cd)
  then show ?case by (simp add: forEach_throw)
next
  case (absent w s)
  then show ?case by (simp add: disconnect_absent)
next
  case (present w s cd)
  then show ?case by (simp add: disconnect_present)
qed

subsection \<open>What a broadcast and a disconnect leave alone\<close>

lemma set_delete_subset: "set (AList.delete k al) \<subseteq> set al"
  by (auto simp: AList.delete_eq)

lemma broadcast_subset:
  "set (clients (broadcastImmediate_forEach ks m ex s)) \<subseteq> set (clients s) \<and>
   set (pendingUpdates (broadcastImmediate_forEach ks m ex s)) \<subseteq> set (pendingUpdates s)"
  "set (clients (handleClientDisconnect w s)) \<subseteq> set (clients s) \<and>
   set (pendingUpdates (handleClientDisconnect w s)) \<subseteq> set (pendingUpdates s)"
proof (induction ks m ex s and w s rule: broadcast_induct)
  case (Nil m ex s)
  show ?case by simp
next
  case (skip w rest m ex s)
  then show ?case by (simp add: forEach_skip)
next
  case (send w rest m ex s cd)
  then show ?case by (simp add: forEach_send)
next
  case (throw w rest m ex s cd)
  then show ?case by (auto simp: forEach_throw)
next
  case (absent w s)
  then show ?case by (simp add: disconnect_absent)
next
  case (present w s cd)
  then show ?case
    using set_delete_subset[of w "clients s"] set_delete_subset[of w "pendingUpdates s"]
    by (auto simp: disconnect_present)
qed

lemma broadcast_distinct:
  "(distinct (map fst (clients s)) \<longrightarrow>
      distinct (map fst (clients (broadcastImmediate_forEach ks m ex s)))) \<and>
   (distinct (map fst (pendingUpdates s)) \<longrightarrow>
      distinct (map fst (pendingUpdates (broadcastImmediate_forEach ks m ex s))))"
  "(distinct (map fst (clients s)) \<longrightarrow>
      distinct (map fst (clients (handleClientDisconnect w s)))) \<and>
   (distinct (map fst (pendingUpdates s)) \<longrightarrow>
      distinct (map fst (pendingUpdates (handleClientDisconnect w s))))"
proof (induction ks m ex s and w s rule: broadcast_induct)
  case (Nil m ex s)
  show ?case by simp
next
  case (skip w rest m ex s)
  then show ?case by (simp add: forEach_skip)
next
  case (send w rest m ex s cd)
  then show ?case by (simp add: forEach_send)
next
  case (throw w rest m ex s cd)
  then show ?case by (simp add: forEach_throw)
next
  case (absent w s)
  then show ?case by (simp add: disconnect_absent)
next
  case (present w s cd)
  then show ?case by (simp add: disconnect_present distinct_delete)
qed

text \<open>
  A connection is disconnected during a broadcast only when a send to it throws: one
  whose sends do not throw keeps its registry entry and its queue.
\<close>

lemma map_of_delete_other: "k \<noteq> w \<Longrightarrow> map_of (AList.delete w al) k = map_of al k"
  by (simp add: delete_conv')

lemma broadcast_keeps:
  "\<not> sendFails (socks s r) \<longrightarrow>
     map_of (clients (broadcastImmediate_forEach ks m ex s)) r = map_of (clients s) r \<and>
     map_of (pendingUpdates (broadcastImmediate_forEach ks m ex s)) r =
       map_of (pendingUpdates s) r"
  "\<not> sendFails (socks s r) \<longrightarrow> r \<noteq> w \<longrightarrow>
     map_of (clients (handleClientDisconnect w s)) r = map_of (clients s) r \<and>
     map_of (pendingUpdates (handleClientDisconnect w s)) r = map_of (pendingUpdates s) r"
proof (induction ks m ex s and w s rule: broadcast_induct)
  case (Nil m ex s)
  show ?case by simp
next
  case (skip w rest m ex s)
  then show ?case by (simp add: forEach_skip)
next
  case (send w rest m ex s cd)
  then show ?case by (simp add: forEach_send)
next
  case (throw w rest m ex s cd)
  then show ?case by (auto simp: forEach_throw broadcast_frame)
next
  case (absent w s)
  then show ?case by (simp add: disconnect_absent)
next
  case (present w s cd)
  then show ?case by (simp add: disconnect_present map_of_delete_other)
qed

lemma disconnect_removes_present:
  assumes "map_of (clients s) w = Some cd"
  shows "map_of (clients (handleClientDisconnect w s)) w = None \<and>
         map_of (pendingUpdates (handleClientDisconnect w s)) w = None"
proof -
  let ?s0 = "s\<lparr>clients := AList.delete w (clients s),
               pendingUpdates := AList.delete w (pendingUpdates s)\<rparr>"
  have "w \<notin> fst ` set (clients ?s0)" "w \<notin> fst ` set (pendingUpdates ?s0)"
    by (auto simp: AList.delete_eq)
  moreover have "set (clients (handleClientDisconnect w s)) \<subseteq> set (clients ?s0)"
    "set (pendingUpdates (handleClientDisconnect w s)) \<subseteq> set (pendingUpdates ?s0)"
    using broadcast_subset(1)[of "map fst (clients ?s0)" "PlayerLeft (clientId cd)" None ?s0]
      assms
    by (simp_all add: disconnect_present)
  ultimately have "w \<notin> fst ` set (clients (handleClientDisconnect w s))"
    "w \<notin> fst ` set (pendingUpdates (handleClientDisconnect w s))"
    by blast+
  then show ?thesis by (simp add: map_of_eq_None_iff)
qed

lemma disconnect_removes:
  "map_of (clients (handleClientDisconnect w s)) w = None"
  by (cases "map_of (clients s) w")
     (simp_all add: disconnect_absent disconnect_removes_present)

subsection \<open>Counting what a connection is sent\<close>

lemma count_list_distinct: "distinct ks \<Longrightarrow> count_list ks r = (if r \<in> set ks then 1 else 0)"
  by (induction ks) auto

lemma leaving_delete:
  "distinct (map fst cl) \<Longrightarrow> map_of cl w = Some cd \<Longrightarrow>
     leaving f cl = leaving f (AList.delete w cl) + (if PlayerLeft (clientId cd) = f then 1 else 0)"
proof (induction cl)
  case Nil
  then show ?case by simp
next
  case (Cons p cl)
  show ?case
  proof (cases "fst p = w")
    case True
    then have "w \<notin> fst ` set cl" using Cons.prems(1) by auto
    then have "AList.delete w cl = cl"
      by (induction cl) (auto simp: AList.delete_eq)
    with True Cons.prems(2) show ?thesis
      by (cases p) (auto simp: leaving_def AList.delete_eq)
  next
    case False
    with Cons show ?thesis
      by (cases p) (auto simp: leaving_def AList.delete_eq)
  qed
qed

lemma healthy_sent [simp]: "healthy r (s\<lparr>sent := x\<rparr>) = healthy r s"
  by (simp add: healthy_def)

lemma healthy_disconnect:
  "healthy r s \<Longrightarrow> r \<noteq> w \<Longrightarrow> healthy r (handleClientDisconnect w s)"
  by (simp add: healthy_def broadcast_keeps(2) broadcast_frame(2))

lemma healthy_delete:
  "healthy r s \<Longrightarrow> r \<noteq> w \<Longrightarrow>
     healthy r (s\<lparr>clients := AList.delete w (clients s),
                  pendingUpdates := AList.delete w (pendingUpdates s)\<rparr>)"
  by (simp add: healthy_def map_of_delete_other)

text \<open>
  Conservation: what a healthy connection \<open>r\<close> has been sent of a frame \<open>f\<close>, plus
  the number of registered connections whose \<^verbatim>\<open>player_left\<close> frame is \<open>f\<close>, grows
  during a broadcast of \<open>m\<close> by exactly the turns of \<open>r\<close> when \<open>m\<close> is \<open>f\<close>.
  So \<open>r\<close> is sent one \<^verbatim>\<open>player_left\<close> for every connection removed, and nothing
  else beyond the message broadcast.
\<close>

lemma broadcast_conservation:
  "distinct (map fst (clients s)) \<longrightarrow> healthy r s \<longrightarrow>
     delivered r f (broadcastImmediate_forEach ks m ex s) +
       leaving f (clients (broadcastImmediate_forEach ks m ex s)) =
     delivered r f s + leaving f (clients s) +
       (if m = f \<and> Some r \<noteq> ex then count_list ks r else 0)"
  "distinct (map fst (clients s)) \<longrightarrow> healthy r s \<longrightarrow> r \<noteq> w \<longrightarrow>
     delivered r f (handleClientDisconnect w s) +
       leaving f (clients (handleClientDisconnect w s)) =
     delivered r f s + leaving f (clients s)"
proof (induction ks m ex s and w s rule: broadcast_induct)
  case (Nil m ex s)
  show ?case by simp
next
  case (skip w rest m ex s)
  then show ?case by (auto simp: forEach_skip healthy_def)
next
  case (send w rest m ex s cd)
  then show ?case by (auto simp: forEach_send delivered_def)
next
  case (throw w rest m ex s cd)
  show ?case
  proof (intro impI)
    assume d: "distinct (map fst (clients s))" and h: "healthy r s"
    from h throw.hyps(4) have ne: "r \<noteq> w" by (auto simp: healthy_def)
    have d': "distinct (map fst (clients (handleClientDisconnect w s)))"
      using broadcast_distinct(2) d by blast
    have h': "healthy r (handleClientDisconnect w s)"
      using healthy_disconnect[OF h ne] .
    from throw.IH(1) d h ne throw.IH(2) d' h' ne show
      "delivered r f (broadcastImmediate_forEach (w # rest) m ex s) +
         leaving f (clients (broadcastImmediate_forEach (w # rest) m ex s)) =
       delivered r f s + leaving f (clients s) +
         (if m = f \<and> Some r \<noteq> ex then count_list (w # rest) r else 0)"
      using throw.hyps by (simp add: forEach_throw)
  qed
next
  case (absent w s)
  then show ?case by (simp add: disconnect_absent)
next
  case (present w s cd)
  show ?case
  proof (intro impI)
    assume d: "distinct (map fst (clients s))" and h: "healthy r s" and ne: "r \<noteq> w"
    let ?s0 = "s\<lparr>clients := AList.delete w (clients s),
                 pendingUpdates := AList.delete w (pendingUpdates s)\<rparr>"
    have d0: "distinct (map fst (clients ?s0))" using d by (simp add: distinct_delete)
    have h0: "healthy r ?s0" using healthy_delete[OF h ne] .
    have "map_of (AList.delete w (clients s)) r \<noteq> None"
      using h ne by (simp add: healthy_def map_of_delete_other)
    then have rin: "r \<in> set (map fst (AList.delete w (clients s)))"
      by (simp add: map_of_eq_None_iff)
    have c1: "count_list (map fst (AList.delete w (clients s))) r = 1"
      using count_list_distinct[of "map fst (AList.delete w (clients s))" r] d0 rin by simp
    from present.IH d0 h0 c1 leaving_delete[OF d present.hyps, of f]
    show "delivered r f (handleClientDisconnect w s) +
            leaving f (clients (handleClientDisconnect w s)) =
          delivered r f s + leaving f (clients s)"
      using present.hyps by (simp add: disconnect_present delivered_def)
  qed
qed

lemma leaving_delete_le: "leaving f (AList.delete w cl) \<le> leaving f cl"
  by (induction cl) (auto simp: leaving_def AList.delete_eq)

lemma broadcast_leaving_mono:
  "leaving f (clients (broadcastImmediate_forEach ks m ex s)) \<le> leaving f (clients s)"
  "leaving f (clients (handleClientDisconnect w s)) \<le> leaving f (clients s)"
proof (induction ks m ex s and w s rule: broadcast_induct)
  case (Nil m ex s)
  show ?case by simp
next
  case (skip w rest m ex s)
  then show ?case by (simp add: forEach_skip)
next
  case (send w rest m ex s cd)
  then show ?case by (simp add: forEach_send)
next
  case (throw w rest m ex s cd)
  then show ?case by (simp add: forEach_throw)
next
  case (absent w s)
  then show ?case by (simp add: disconnect_absent)
next
  case (present w s cd)
  then show ?case
    using leaving_delete_le[of f w "clients s"] by (simp add: disconnect_present)
qed

text \<open>
  A healthy connection other than the one disconnected is sent its
  \<^verbatim>\<open>player_left\<close> exactly once, when no other registered connection has the same
  id.
\<close>

lemma disconnect_delivers_once:
  assumes reg: "map_of (clients s) w = Some cd"
    and d: "distinct (map fst (clients s))"
    and u: "leaving (PlayerLeft (clientId cd)) (clients s) = 1"
    and h: "healthy r s" and ne: "r \<noteq> w"
  shows "delivered r (PlayerLeft (clientId cd)) (handleClientDisconnect w s) =
           delivered r (PlayerLeft (clientId cd)) s + 1 \<and>
         leaving (PlayerLeft (clientId cd)) (clients (handleClientDisconnect w s)) = 0"
proof -
  let ?f = "PlayerLeft (clientId cd)"
  let ?s0 = "s\<lparr>clients := AList.delete w (clients s),
               pendingUpdates := AList.delete w (pendingUpdates s)\<rparr>"
  have "leaving ?f (AList.delete w (clients s)) = 0"
    using leaving_delete[OF d reg, of ?f] u by simp
  then have z: "leaving ?f (clients (handleClientDisconnect w s)) = 0"
    using broadcast_leaving_mono(1)[of ?f "map fst (clients ?s0)" ?f None ?s0] reg
    by (simp add: disconnect_present)
  from broadcast_conservation(2)[of s r w ?f] d h ne z u show ?thesis by simp
qed

lemma fire_unregistered:
  assumes "map_of (clients s) w = None"
  shows "clients (fire t w s) = clients s \<and> pendingUpdates (fire t w s) = pendingUpdates s \<and>
         sent (fire t w s) = sent s \<and> chatHistory (fire t w s) = chatHistory s"
  using assms
  by (cases t)
     (simp_all add: on_close_def on_error_def liveness_timeout_def disconnect_absent
        ws_terminate_def)

lemma fire_all_unregistered:
  "map_of (clients s) w = None \<Longrightarrow>
     clients (fire_all ts w s) = clients s \<and> pendingUpdates (fire_all ts w s) = pendingUpdates s \<and>
     sent (fire_all ts w s) = sent s \<and> chatHistory (fire_all ts w s) = chatHistory s"
proof (induction ts arbitrary: s)
  case Nil
  show ?case by (simp add: fire_all_def)
next
  case (Cons t ts)
  have "map_of (clients (fire t w s)) w = None"
    using fire_unregistered[OF Cons.prems, of t] Cons.prems by simp
  from Cons.IH[OF this] fire_unregistered[OF Cons.prems, of t]
  show ?case by (simp add: fire_all_def)
qed

lemma fire_removes:
  "map_of (clients (fire t w s)) w = None"
  by (cases t)
     (simp_all add: on_close_def on_error_def liveness_timeout_def disconnect_removes
        ws_terminate_def)

lemma fire_discards_queue:
  "map_of (clients s) w = Some cd \<Longrightarrow> map_of (pendingUpdates (fire t w s)) w = None"
  by (cases t)
     (simp_all add: on_close_def on_error_def liveness_timeout_def
        disconnect_removes_present ws_terminate_def)

lemma fire_delivers_once:
  assumes reg: "map_of (clients s) w = Some cd"
    and d: "distinct (map fst (clients s))"
    and u: "leaving (PlayerLeft (clientId cd)) (clients s) = 1"
    and h: "healthy r s" and ne: "r \<noteq> w"
  shows "delivered r (PlayerLeft (clientId cd)) (fire t w s) =
           delivered r (PlayerLeft (clientId cd)) s + 1"
proof (cases t)
  case CloseEvent
  let ?s = "s\<lparr>socks := (socks s)(w := (socks s w)\<lparr>readyState := CLOSED\<rparr>),
              wssClients := removeAll w (wssClients s)\<rparr>"
  have "healthy r ?s" using h ne by (simp add: healthy_def)
  from disconnect_delivers_once[of ?s w cd r, OF _ _ _ this ne] reg d u
  show ?thesis using CloseEvent by (simp add: on_close_def delivered_def)
next
  case ErrorEvent
  with disconnect_delivers_once[OF reg d u h ne] show ?thesis by (simp add: on_error_def)
next
  case LivenessTimeout
  with disconnect_delivers_once[OF reg d u h ne] show ?thesis
    by (simp add: liveness_timeout_def ws_terminate_def delivered_def)
qed

subsection \<open>The flush loop\<close>

lemma flush_forEach_Cons:
  "flush_forEach (w # rest) s = flush_forEach rest (flush_turn w s)"
  by (simp add: flush_turn_def flush_payload_def ws_send_OPEN split: option.splits)

lemma flush_turn_frame:
  "chatHistory (flush_turn w s) = chatHistory s \<and>
   updateBatchTimer (flush_turn w s) = updateBatchTimer s \<and>
   scheduledFlushes (flush_turn w s) = scheduledFlushes s \<and>
   socks (flush_turn w s) = socks s \<and>
   wssClients (flush_turn w s) = wssClients s \<and>
   pinged (flush_turn w s) = pinged s"
  by (simp add: flush_turn_def broadcast_frame split: option.splits)

lemma flush_turn_distinct:
  "distinct (map fst (clients s)) \<Longrightarrow> distinct (map fst (clients (flush_turn w s)))"
  using broadcast_distinct(2)[of s w]
  by (simp add: flush_turn_def split: option.splits)

lemma flush_turn_keeps:
  "\<not> sendFails (socks s r) \<Longrightarrow>
     map_of (clients (flush_turn w s)) r = map_of (clients s) r \<and>
     map_of (pendingUpdates (flush_turn w s)) r = map_of (pendingUpdates s) r"
  using broadcast_keeps(2)[of s r w]
  by (auto simp: flush_turn_def split: option.splits)

lemma flush_turn_healthy: "healthy r s \<Longrightarrow> healthy r (flush_turn w s)"
  using flush_turn_keeps[of s r w] flush_turn_frame[of w s]
  by (simp add: healthy_def)

lemma flush_turn_expected: "healthy r s \<Longrightarrow> expected r (flush_turn w s) f = expected r s f"
  using flush_turn_keeps[of s r w] by (simp add: expected_def healthy_def)

lemma flush_turn_conservation:
  assumes d: "distinct (map fst (clients s))" and h: "healthy r s"
  shows "delivered r f (flush_turn w s) + leaving f (clients (flush_turn w s)) =
         delivered r f s + leaving f (clients s) + (if w = r \<and> expected r s f then 1 else 0)"
proof (cases "w = r")
  case True
  with h show ?thesis
    by (auto simp: flush_turn_def healthy_def expected_def delivered_def split: option.splits)
next
  case False
  with broadcast_conservation(2)[of s r w f] d h show ?thesis
    by (auto simp: flush_turn_def delivered_def split: option.splits)
qed

lemma flush_forEach_conservation:
  "distinct (map fst (clients s)) \<Longrightarrow> healthy r s \<Longrightarrow>
     delivered r f (flush_forEach ks s) + leaving f (clients (flush_forEach ks s)) =
     delivered r f s + leaving f (clients s) + (if expected r s f then count_list ks r else 0)"
proof (induction ks arbitrary: s)
  case Nil
  show ?case by simp
next
  case (Cons w ks)
  from Cons.IH[OF flush_turn_distinct[OF Cons.prems(1)] flush_turn_healthy[OF Cons.prems(2)]]
    flush_turn_conservation[OF Cons.prems, of f w] flush_turn_expected[OF Cons.prems(2), of w f]
  show ?case
    by (simp add: flush_forEach_Cons del: flush_forEach.simps(2))
qed

lemma pending_push_back:
  "map_of (pending_push w m pu) w =
     Some ((case map_of pu w of None \<Rightarrow> [] | Some q \<Rightarrow> q) @ [m])"
  by (simp add: pending_push_def map_of_map_entry update_conv' split: option.splits)

lemma leaving_not_left: "(\<And>i. f \<noteq> PlayerLeft i) \<Longrightarrow> leaving f cl = 0"
  by (induction cl) (auto simp: leaving_def)

lemma flush_conservation:
  assumes d: "distinct (map fst (clients s))" and dp: "distinct (map fst (pendingUpdates s))"
    and h: "healthy r s" and q: "map_of (pendingUpdates s) r = Some messages"
  shows "delivered r f (flushBatchedUpdates s) + leaving f (clients (flushBatchedUpdates s)) =
         delivered r f s + leaving f (clients s) +
           (if flush_payload messages = Some f then 1 else 0)"
proof -
  have "r \<in> set (map fst (pendingUpdates s))"
    using q by (metis map_of_eq_None_iff option.distinct(1) set_map)
  then have c: "count_list (map fst (pendingUpdates s)) r = 1"
    using count_list_distinct[OF dp, of r] by simp
  from flush_forEach_conservation[OF d h, of f "map fst (pendingUpdates s)"] c q
  show ?thesis
    by (simp add: flushBatchedUpdates_def Let_def delivered_def expected_def)
qed

subsection \<open>A socket that is not open is sent nothing\<close>

lemma broadcast_not_open:
  "readyState (socks s r) \<noteq> OPEN \<Longrightarrow>
     delivered r f (broadcastImmediate_forEach ks m ex s) = delivered r f s"
  "readyState (socks s r) \<noteq> OPEN \<Longrightarrow>
     delivered r f (handleClientDisconnect w s) = delivered r f s"
proof (induction ks m ex s and w s rule: broadcast_induct)
  case (Nil m ex s)
  show ?case by simp
next
  case (skip w rest m ex s)
  then show ?case by (simp add: forEach_skip)
next
  case (send w rest m ex s cd)
  then have "w \<noteq> r" by auto
  with send show ?case by (simp add: forEach_send delivered_def)
next
  case (throw w rest m ex s cd)
  then show ?case by (simp add: forEach_throw broadcast_frame)
next
  case (absent w s)
  then show ?case by (simp add: disconnect_absent)
next
  case (present w s cd)
  then show ?case by (simp add: disconnect_present delivered_def)
qed

lemma flush_turn_not_open:
  "readyState (socks s r) \<noteq> OPEN \<Longrightarrow> delivered r f (flush_turn w s) = delivered r f s"
  using broadcast_not_open(2)[of s r f w]
  by (auto simp: flush_turn_def delivered_def split: option.splits)

lemma flush_forEach_not_open:
  "readyState (socks s r) \<noteq> OPEN \<Longrightarrow> delivered r f (flush_forEach ks s) = delivered r f s"
proof (induction ks arbitrary: s)
  case Nil
  show ?case by simp
next
  case (Cons w ks)
  from Cons.IH[of "flush_turn w s"] Cons.prems flush_turn_frame[of w s]
    flush_turn_not_open[OF Cons.prems, of f w]
  show ?case by (simp add: flush_forEach_Cons del: flush_forEach.simps(2))
qed

lemma flush_not_open:
  "readyState (socks s r) \<noteq> OPEN \<Longrightarrow> delivered r f (flushBatchedUpdates s) = delivered r f s"
  using flush_forEach_not_open[of s r f "map fst (pendingUpdates s)"]
  by (simp add: flushBatchedUpdates_def Let_def delivered_def)

subsection \<open>What each handler leaves alone\<close>

lemma batchBroadcast_forEach_frame:
  "clients (batchBroadcast_forEach ks m ex s) = clients s \<and>
   chatHistory (batchBroadcast_forEach ks m ex s) = chatHistory s \<and>
   updateBatchTimer (batchBroadcast_forEach ks m ex s) = updateBatchTimer s \<and>
   scheduledFlushes (batchBroadcast_forEach ks m ex s) = scheduledFlushes s \<and>
   socks (batchBroadcast_forEach ks m ex s) = socks s \<and>
   wssClients (batchBroadcast_forEach ks m ex s) = wssClients s \<and>
   sent (batchBroadcast_forEach ks m ex s) = sent s \<and>
   pinged (batchBroadcast_forEach ks m ex s) = pinged s"
  by (induction ks arbitrary: s) simp_all

lemma batchBroadcast_schedules:
  "scheduledFlushes (batchBroadcast m ex False s) =
     (if updateBatchTimer s then scheduledFlushes s else Suc (scheduledFlushes s)) \<and>
   updateBatchTimer (batchBroadcast m ex False s) = True \<and>
   chatHistory (batchBroadcast m ex False s) = chatHistory s \<and>
   sent (batchBroadcast m ex False s) = sent s \<and>
   clients (batchBroadcast m ex False s) = clients s"
  by (simp add: batchBroadcast_def Let_def batchBroadcast_forEach_frame)

lemma flush_forEach_frame:
  "chatHistory (flush_forEach ks s) = chatHistory s \<and>
   updateBatchTimer (flush_forEach ks s) = updateBatchTimer s \<and>
   scheduledFlushes (flush_forEach ks s) = scheduledFlushes s \<and>
   socks (flush_forEach ks s) = socks s \<and>
   wssClients (flush_forEach ks s) = wssClients s \<and>
   pinged (flush_forEach ks s) = pinged s"
proof (induction ks arbitrary: s)
  case Nil
  show ?case by simp
next
  case (Cons w ks)
  from Cons[of "flush_turn w s"] flush_turn_frame[of w s] show ?case
    by (simp add: flush_forEach_Cons del: flush_forEach.simps(2))
qed

lemma flush_timeout_frame:
  "chatHistory (flush_timeout s) = chatHistory s \<and>
   updateBatchTimer (flush_timeout s) = False \<and>
   scheduledFlushes (flush_timeout s) = scheduledFlushes s - 1 \<and>
   pendingUpdates (flush_timeout s) = []"
  by (simp add: flush_timeout_def flushBatchedUpdates_def Let_def flush_forEach_frame)

lemma liveness_timeout_frame:
  "chatHistory (liveness_timeout w s) = chatHistory s \<and>
   updateBatchTimer (liveness_timeout w s) = updateBatchTimer s \<and>
   scheduledFlushes (liveness_timeout w s) = scheduledFlushes s \<and>
   wssClients (liveness_timeout w s) = wssClients s \<and>
   pinged (liveness_timeout w s) = pinged s"
  by (simp add: liveness_timeout_def ws_terminate_def broadcast_frame)

lemma heartbeatInterval_forEach_frame:
  "chatHistory (heartbeatInterval_forEach ks s) = chatHistory s \<and>
   updateBatchTimer (heartbeatInterval_forEach ks s) = updateBatchTimer s \<and>
   scheduledFlushes (heartbeatInterval_forEach ks s) = scheduledFlushes s \<and>
   wssClients (heartbeatInterval_forEach ks s) = wssClients s"
proof (induction ks arbitrary: s)
  case Nil
  show ?case by simp
next
  case (Cons w ks)
  show ?case
    using Cons[of "liveness_timeout w s"]
      Cons[of "ws_ping w (s\<lparr>socks := (socks s)(w := (socks s w)\<lparr>isAlive := False\<rparr>)\<rparr>)"]
      Cons[of "s\<lparr>socks := (socks s)(w := (socks s w)\<lparr>isAlive := False\<rparr>)\<rparr>"]
      liveness_timeout_frame[of w s]
    by (simp add: Let_def ws_ping_def)
qed

lemma ws_send_frame:
  "ws_send w m s = Inr s' \<Longrightarrow>
     clients s' = clients s \<and> chatHistory s' = chatHistory s \<and>
     pendingUpdates s' = pendingUpdates s \<and> updateBatchTimer s' = updateBatchTimer s \<and>
     scheduledFlushes s' = scheduledFlushes s \<and> socks s' = socks s \<and>
     wssClients s' = wssClients s \<and> pinged s' = pinged s"
  by (auto simp: ws_send_def split: readyState.splits if_splits)

lemma on_connection_frame:
  assumes "on_connection w newId t1 t2 t3 t4 s = Inr s'"
  shows "chatHistory s' = chatHistory s \<and> updateBatchTimer s' = updateBatchTimer s \<and>
         scheduledFlushes s' = scheduledFlushes s"
  using assms
  by (auto simp: on_connection_def Let_def broadcastImmediate_def broadcast_frame
      split: sum.splits if_splits dest!: ws_send_frame)

lemma on_message_frame:
  "(updateBatchTimer (on_message w now msg s) = updateBatchTimer s \<and>
    scheduledFlushes (on_message w now msg s) = scheduledFlushes s) \<or>
   (\<not> updateBatchTimer s \<and> updateBatchTimer (on_message w now msg s) \<and>
    scheduledFlushes (on_message w now msg s) = Suc (scheduledFlushes s))"
  by (cases msg)
     (auto simp: on_message_def Let_def broadcastImmediate_def broadcast_frame
        batchBroadcast_schedules split: option.splits sum.splits dest!: ws_send_frame)

lemma on_message_chatHistory:
  "chatHistory (on_message w now msg s) = chatHistory s \<or>
   (\<exists>e. chatHistory (on_message w now msg s) = chatHistory_push e (chatHistory s))"
  by (cases msg)
     (auto simp: on_message_def Let_def broadcastImmediate_def broadcast_frame
        batchBroadcast_schedules split: option.splits sum.splits dest!: ws_send_frame)

lemma chatHistory_push_length:
  "length h \<le> MAX_CHAT_HISTORY \<Longrightarrow> length (chatHistory_push e h) \<le> MAX_CHAT_HISTORY"
  by (auto simp: chatHistory_push_def Let_def)

lemma reachable_timer_inv: "reachable s \<Longrightarrow> timer_inv s"
proof (induction rule: reachable.induct)
  case start
  show ?case by (simp add: timer_inv_def initial_server_def)
next
  case (environment s w rs b)
  then show ?case by (simp add: timer_inv_def)
next
  case (connection s w newId tState tUpdate tHeartbeat tServer s')
  from on_connection_frame[OF connection.hyps(5)[unfolded connection_event_def]] connection.IH
  show ?case by (simp add: timer_inv_def)
next
  case (message s w now msg)
  with on_message_frame[of w now msg s] show ?case by (auto simp: timer_inv_def)
next
  case (close s w)
  then show ?case by (simp add: timer_inv_def on_close_def broadcast_frame)
next
  case (error s w)
  then show ?case by (simp add: timer_inv_def on_error_def broadcast_frame)
next
  case (pong s w)
  then show ?case by (simp add: timer_inv_def heartbeat_def)
next
  case (sweep s)
  then show ?case by (simp add: timer_inv_def heartbeatInterval_def heartbeatInterval_forEach_frame)
next
  case (timeout s)
  then show ?case by (auto simp: timer_inv_def flush_timeout_frame)
qed

lemma reachable_chatHistory: "reachable s \<Longrightarrow> length (chatHistory s) \<le> MAX_CHAT_HISTORY"
proof (induction rule: reachable.induct)
  case start
  show ?case by (simp add: initial_server_def)
next
  case (environment s w rs b)
  then show ?case by simp
next
  case (connection s w newId tState tUpdate tHeartbeat tServer s')
  from on_connection_frame[OF connection.hyps(5)[unfolded connection_event_def]] connection.IH
  show ?case by simp
next
  case (message s w now msg)
  with on_message_chatHistory[of w now msg s] show ?case
    by (auto simp: chatHistory_push_length)
next
  case (close s w)
  then show ?case by (simp add: on_close_def broadcast_frame)
next
  case (error s w)
  then show ?case by (simp add: on_error_def broadcast_frame)
next
  case (pong s w)
  then show ?case by (simp add: heartbeat_def)
next
  case (sweep s)
  then show ?case by (simp add: heartbeatInterval_def heartbeatInterval_forEach_frame)
next
  case (timeout s)
  then show ?case by (simp add: flush_timeout_frame)
qed

subsection \<open>A run of the server\<close>

lemma joined1_connects:
  "connection_event 1 ''aaaaaa'' 1000 1000 1000 1000 opened1 = Inr joined1"
  by (simp add: connection_event_def on_connection_def opened1_def joined1_def
      initial_server_def ws_send_def existingPlayersData_def broadcastImmediate_def
      broadcastImmediate_forEach.simps(2) ex_alice_def Let_def)

lemma reachable_joined1: "reachable joined1"
proof -
  have "reachable opened1"
    unfolding opened1_def by (rule reachable.environment[OF reachable.start])
  moreover have "1 \<notin> set (wssClients opened1)" "map_of (clients opened1) 1 = None"
    "readyState (socks opened1 1) = OPEN"
    by (simp_all add: opened1_def initial_server_def)
  ultimately show ?thesis
    using joined1_connects by (rule reachable.connection)
qed

lemma reachable_moved1: "reachable moved1"
  unfolding moved1_def by (rule reachable.message[OF reachable_joined1])

lemma moved1_timer: "updateBatchTimer moved1 \<and> scheduledFlushes moved1 = 1"
  by (simp add: moved1_def on_message_def joined1_def ex_alice_def ex_moved_significant Let_def
      batchBroadcast_schedules)

subsection \<open>The frames a broadcast adds\<close>

text \<open>
  A broadcast of \<open>m\<close> appends to the log only \<open>m\<close> itself, never to the excluded
  socket, and \<^verbatim>\<open>player_left\<close> frames.
\<close>

lemma broadcast_sent_frames:
  "\<exists>new. sent (broadcastImmediate_forEach ks m ex s) = sent s @ new \<and>
     (\<forall>p \<in> set new. (snd p = m \<and> Some (fst p) \<noteq> ex) \<or> (\<exists>i. snd p = PlayerLeft i))"
  "\<exists>new. sent (handleClientDisconnect w s) = sent s @ new \<and>
     (\<forall>p \<in> set new. \<exists>i. snd p = PlayerLeft i)"
proof (induction ks m ex s and w s rule: broadcast_induct)
  case (Nil m ex s)
  show ?case by simp
next
  case (skip w rest m ex s)
  then show ?case by (simp add: forEach_skip)
next
  case (send w rest m ex s cd)
  then obtain new where
    "sent (broadcastImmediate_forEach rest m ex (s\<lparr>sent := sent s @ [(w, m)]\<rparr>)) =
       sent s @ (w, m) # new"
    and "\<forall>p \<in> set new. (snd p = m \<and> Some (fst p) \<noteq> ex) \<or> (\<exists>i. snd p = PlayerLeft i)"
    by auto
  with send.hyps show ?case
    by (intro exI[of _ "(w, m) # new"]) (simp add: forEach_send)
next
  case (throw w rest m ex s cd)
  from throw.IH(1) obtain new1 where
    n1: "sent (handleClientDisconnect w s) = sent s @ new1"
    and l1: "\<forall>p \<in> set new1. \<exists>i. snd p = PlayerLeft i" by auto
  from throw.IH(2) obtain new2 where
    n2: "sent (broadcastImmediate_forEach rest m ex (handleClientDisconnect w s)) =
       sent (handleClientDisconnect w s) @ new2"
    and l2: "\<forall>p \<in> set new2. (snd p = m \<and> Some (fst p) \<noteq> ex) \<or> (\<exists>i. snd p = PlayerLeft i)"
    by auto
  from n1 n2 l1 l2 throw.hyps show ?case
    by (intro exI[of _ "new1 @ new2"]) (auto simp: forEach_throw)
next
  case (absent w s)
  then show ?case by (simp add: disconnect_absent)
next
  case (present w s cd)
  then show ?case by (auto simp: disconnect_present)
qed

lemma filter_update_other:
  "filter (\<lambda>(k, v). k \<noteq> w) (AList.update w x al) = filter (\<lambda>(k, v). k \<noteq> w) al"
  by (induction al) auto

lemma on_connection_open:
  assumes "readyState (socks s w) = OPEN" and "\<not> sendFails (socks s w)"
  shows "on_connection w newId tState tUpdate tHeartbeat tServer s =
     Inr (broadcastImmediate (PlayerJoined newId (initialState tState)) (Some w)
            (registered_new w newId tState tUpdate tHeartbeat tServer s))"
  using assms
  by (simp add: on_connection_def Let_def ws_send_def registered_new_def connection_prefix_def
      existingPlayersData_def filter_update_other)

lemma healthy_registered_new:
  assumes "healthy r s" and "r \<noteq> w"
  shows "healthy r (registered_new w newId tState tUpdate tHeartbeat tServer s)"
  using assms by (simp add: healthy_def registered_new_def update_conv')

lemma leaving_PlayerJoined [simp]: "leaving (PlayerJoined i st) cl = 0"
  by (rule leaving_not_left) simp

lemma lobby_connection:
  "on_connection 2 ''bbbbbb'' 1500 1500 1500 1500 lobby =
     Inr (broadcastImmediate (PlayerJoined ''bbbbbb'' (initialState 1500)) (Some 2)
            (registered_new 2 ''bbbbbb'' 1500 1500 1500 1500 lobby)) \<and>
   sent (broadcastImmediate (PlayerJoined ''bbbbbb'' (initialState 1500)) (Some 2)
            (registered_new 2 ''bbbbbb'' 1500 1500 1500 1500 lobby)) =
     sent lobby @
       [(2, AssignId ''bbbbbb'' (initialState 1500) 1500),
        (2, ExistingPlayers [(''aaaaaa'', initialState 1000)]),
        (2, ChatHistoryFrame [ChatEntry ''aaaaaa'' ''hello'' 1200]),
        (1, PlayerJoined ''bbbbbb'' (initialState 1500))]"
  by (simp add: on_connection_def lobby_def joined1_def initial_server_def ws_send_def
      existingPlayersData_def broadcastImmediate_def broadcastImmediate_forEach.simps(2)
      registered_new_def connection_prefix_def ex_alice_def Let_def)

subsection \<open>The liveness sweep\<close>

lemma heartbeatInterval_forEach_Cons:
  "heartbeatInterval_forEach (w # rest) s = heartbeatInterval_forEach rest (heartbeat_turn w s)"
  by (simp add: heartbeat_turn_def Let_def)

declare heartbeatInterval_forEach.simps(2) [simp del]

lemma pongs_Nil [simp]: "pongs [] s = s"
  by (simp add: pongs_def)

lemma pongs_Cons [simp]: "pongs (k # acks) s = pongs acks (heartbeat k s)"
  by (simp add: pongs_def)

lemma pongs_frame:
  "clients (pongs acks s) = clients s \<and> sent (pongs acks s) = sent s \<and>
   pendingUpdates (pongs acks s) = pendingUpdates s \<and>
   wssClients (pongs acks s) = wssClients s \<and> pinged (pongs acks s) = pinged s"
  by (induction acks arbitrary: s) (simp_all add: heartbeat_def)

lemma pongs_socks:
  "readyState (socks (pongs acks s) k) = readyState (socks s k) \<and>
   sendFails (socks (pongs acks s) k) = sendFails (socks s k) \<and>
   isAlive (socks (pongs acks s) k) = (k \<in> set acks \<or> isAlive (socks s k))"
  by (induction acks arbitrary: s) (auto simp: heartbeat_def)

lemma turn_socks_other:
  "k \<noteq> w \<Longrightarrow> socks (heartbeat_turn w s) k = socks s k"
  by (simp add: heartbeat_turn_def liveness_timeout_def ws_terminate_def ws_ping_def
      broadcast_frame Let_def)

lemma turn_socks_self:
  "\<not> isAlive (socks (heartbeat_turn w s) w) \<and>
   sendFails (socks (heartbeat_turn w s) w) = sendFails (socks s w)"
  by (simp add: heartbeat_turn_def liveness_timeout_def ws_terminate_def ws_ping_def
      broadcast_frame Let_def)

lemma turn_subset: "set (clients (heartbeat_turn w s)) \<subseteq> set (clients s)"
  using broadcast_subset(2)[of w s]
  by (simp add: heartbeat_turn_def liveness_timeout_def ws_terminate_def ws_ping_def Let_def)

lemma turn_distinct:
  "distinct (map fst (clients s)) \<Longrightarrow> distinct (map fst (clients (heartbeat_turn w s)))"
  using broadcast_distinct(2)[of s w]
  by (simp add: heartbeat_turn_def liveness_timeout_def ws_terminate_def ws_ping_def Let_def)

lemma turn_pinged: "set (pinged s) \<subseteq> set (pinged (heartbeat_turn w s))"
  by (auto simp: heartbeat_turn_def liveness_timeout_def ws_terminate_def ws_ping_def
      broadcast_frame Let_def)

lemma turn_pings:
  "isAlive (socks s w) \<Longrightarrow> readyState (socks s w) = OPEN \<Longrightarrow>
     w \<in> set (pinged (heartbeat_turn w s))"
  by (simp add: heartbeat_turn_def ws_ping_def Let_def)

lemma turn_evicts:
  "\<not> isAlive (socks s w) \<Longrightarrow>
     map_of (clients (heartbeat_turn w s)) w = None \<and>
     readyState (socks (heartbeat_turn w s) w) \<noteq> OPEN \<and>
     readyState (socks (heartbeat_turn w s) w) \<noteq> CONNECTING"
  by (simp add: heartbeat_turn_def liveness_timeout_def ws_terminate_def
      disconnect_removes broadcast_frame)

lemma unregistered_subset:
  "set (clients s') \<subseteq> set (clients s) \<Longrightarrow> map_of (clients s) w = None \<Longrightarrow>
     map_of (clients s') w = None"
  by (auto simp: map_of_eq_None_iff)

lemma turn_gone: "gone w s \<Longrightarrow> gone w (heartbeat_turn k s)"
proof -
  assume g: "gone w s"
  then have u: "map_of (clients (heartbeat_turn k s)) w = None"
    using unregistered_subset[OF turn_subset] by (simp add: gone_def)
  have "readyState (socks (heartbeat_turn k s) w) = CLOSING \<or>
        readyState (socks (heartbeat_turn k s) w) = CLOSED"
  proof (cases "k = w")
    case True
    with g show ?thesis
      by (auto simp: gone_def heartbeat_turn_def liveness_timeout_def ws_terminate_def
          ws_ping_def broadcast_frame Let_def)
  next
    case False
    with g turn_socks_other[of w k s] show ?thesis by (simp add: gone_def)
  qed
  with u show ?thesis by (simp add: gone_def)
qed

lemma sweep_gone: "gone w s \<Longrightarrow> gone w (heartbeatInterval_forEach ks s)"
  by (induction ks arbitrary: s) (simp_all add: heartbeatInterval_forEach_Cons turn_gone)

lemma turn_evicts_gone: "\<not> isAlive (socks s w) \<Longrightarrow> gone w (heartbeat_turn w s)"
  using turn_evicts[of s w]
  by (cases "readyState (socks (heartbeat_turn w s) w)") (simp_all add: gone_def)

lemma sweep_evicts:
  "w \<in> set ks \<Longrightarrow> \<not> isAlive (socks s w) \<Longrightarrow> gone w (heartbeatInterval_forEach ks s)"
proof (induction ks arbitrary: s)
  case Nil
  then show ?case by simp
next
  case (Cons k ks)
  show ?case
  proof (cases "k = w")
    case True
    with Cons.prems show ?thesis
      by (simp add: heartbeatInterval_forEach_Cons sweep_gone turn_evicts_gone)
  next
    case False
    with Cons.prems turn_socks_other[of w k s] have
      "w \<in> set ks" "\<not> isAlive (socks (heartbeat_turn k s) w)" by simp_all
    from Cons.IH[OF this] show ?thesis by (simp add: heartbeatInterval_forEach_Cons)
  qed
qed

lemma sweep_clears_alive:
  "w \<in> set ks \<or> \<not> isAlive (socks s w) \<Longrightarrow>
     \<not> isAlive (socks (heartbeatInterval_forEach ks s) w)"
proof (induction ks arbitrary: s)
  case Nil
  then show ?case by simp
next
  case (Cons k ks)
  have "w \<in> set ks \<or> \<not> isAlive (socks (heartbeat_turn k s) w)"
    using Cons.prems turn_socks_self[of k s] turn_socks_other[of w k s]
    by (cases "k = w") auto
  from Cons.IH[OF this] show ?case by (simp add: heartbeatInterval_forEach_Cons)
qed

lemma sweep_subset: "set (clients (heartbeatInterval_forEach ks s)) \<subseteq> set (clients s)"
proof (induction ks arbitrary: s)
  case Nil
  show ?case by simp
next
  case (Cons k ks)
  from Cons[of "heartbeat_turn k s"] turn_subset[of k s] show ?case
    by (auto simp: heartbeatInterval_forEach_Cons)
qed

lemma sweep_distinct:
  "distinct (map fst (clients s)) \<Longrightarrow>
     distinct (map fst (clients (heartbeatInterval_forEach ks s)))"
  by (induction ks arbitrary: s) (simp_all add: heartbeatInterval_forEach_Cons turn_distinct)

lemma sweep_pinged: "set (pinged s) \<subseteq> set (pinged (heartbeatInterval_forEach ks s))"
proof (induction ks arbitrary: s)
  case Nil
  show ?case by simp
next
  case (Cons k ks)
  from Cons[of "heartbeat_turn k s"] turn_pinged[of s k] show ?case
    by (auto simp: heartbeatInterval_forEach_Cons)
qed

lemma sweep_pings:
  "w \<in> set ks \<Longrightarrow> distinct ks \<Longrightarrow> isAlive (socks s w) \<Longrightarrow> readyState (socks s w) = OPEN \<Longrightarrow>
     w \<in> set (pinged (heartbeatInterval_forEach ks s))"
proof (induction ks arbitrary: s)
  case Nil
  then show ?case by simp
next
  case (Cons k ks)
  show ?case
  proof (cases "k = w")
    case True
    with Cons.prems turn_pings[of s w] sweep_pinged[of "heartbeat_turn w s" ks]
    show ?thesis by (auto simp: heartbeatInterval_forEach_Cons)
  next
    case False
    with Cons.prems turn_socks_other[of w k s] have
      "w \<in> set ks" "distinct ks" "isAlive (socks (heartbeat_turn k s) w)"
      "readyState (socks (heartbeat_turn k s) w) = OPEN" by simp_all
    from Cons.IH[OF this] show ?thesis by (simp add: heartbeatInterval_forEach_Cons)
  qed
qed

lemma turn_healthy:
  assumes "healthy r s" and "r \<noteq> w \<or> isAlive (socks s r)"
  shows "healthy r (heartbeat_turn w s)"
proof (cases "r = w")
  case True
  with assms show ?thesis
    by (simp add: heartbeat_turn_def healthy_def ws_ping_def Let_def)
next
  case False
  show ?thesis
  proof (cases "isAlive (socks s w)")
    case True
    with False assms(1) show ?thesis
      by (simp add: heartbeat_turn_def healthy_def ws_ping_def Let_def)
  next
    case dead: False
    have "healthy r (handleClientDisconnect w s)"
      using healthy_disconnect[OF assms(1) False] .
    with False dead show ?thesis
      by (simp add: heartbeat_turn_def liveness_timeout_def ws_terminate_def healthy_def)
  qed
qed

lemma turn_conservation:
  assumes d: "distinct (map fst (clients s))" and h: "healthy r s"
    and a: "r \<noteq> w \<or> isAlive (socks s r)"
  shows "delivered r f (heartbeat_turn w s) + leaving f (clients (heartbeat_turn w s)) =
         delivered r f s + leaving f (clients s)"
proof (cases "isAlive (socks s w)")
  case True
  then show ?thesis
    by (simp add: heartbeat_turn_def ws_ping_def delivered_def Let_def)
next
  case False
  with a have ne: "r \<noteq> w" by auto
  from broadcast_conservation(2)[of s r w f] d h ne False show ?thesis
    by (simp add: heartbeat_turn_def liveness_timeout_def ws_terminate_def delivered_def)
qed

text \<open>
  A healthy connection that is alive at its turn comes through a sweep healthy, and is
  sent one \<^verbatim>\<open>player_left\<close> for every connection the sweep removes.
\<close>

lemma sweep_conservation:
  "distinct (map fst (clients s)) \<Longrightarrow> healthy r s \<Longrightarrow> distinct ks \<Longrightarrow>
   r \<notin> set ks \<or> isAlive (socks s r) \<Longrightarrow>
     healthy r (heartbeatInterval_forEach ks s) \<and>
     delivered r f (heartbeatInterval_forEach ks s) +
       leaving f (clients (heartbeatInterval_forEach ks s)) =
     delivered r f s + leaving f (clients s)"
proof (induction ks arbitrary: s)
  case Nil
  then show ?case by simp
next
  case (Cons k ks)
  have a: "r \<noteq> k \<or> isAlive (socks s r)" using Cons.prems(4) by auto
  have d': "distinct (map fst (clients (heartbeat_turn k s)))"
    using turn_distinct[OF Cons.prems(1)] .
  have h': "healthy r (heartbeat_turn k s)"
    using turn_healthy[OF Cons.prems(2) a] .
  have dk: "distinct ks" using Cons.prems(3) by simp
  have a': "r \<notin> set ks \<or> isAlive (socks (heartbeat_turn k s) r)"
  proof (cases "r = k")
    case True
    with Cons.prems(3) show ?thesis by simp
  next
    case False
    with Cons.prems(4) turn_socks_other[of r k s] show ?thesis by auto
  qed
  from Cons.IH[OF d' h' dk a'] turn_conservation[OF Cons.prems(1,2) a, of f]
  show ?case by (simp add: heartbeatInterval_forEach_Cons)
qed

lemma leaving_zero_subset:
  assumes sub: "set cl' \<subseteq> set cl" and d: "distinct (map fst cl)"
    and reg: "map_of cl w = Some cd" and u: "leaving (PlayerLeft (clientId cd)) cl = 1"
    and un: "map_of cl' w = None"
  shows "leaving (PlayerLeft (clientId cd)) cl' = 0"
proof -
  let ?P = "\<lambda>p. case p of (k, c) \<Rightarrow> PlayerLeft (clientId c) = PlayerLeft (clientId cd)"
  have del: "leaving (PlayerLeft (clientId cd)) (AList.delete w cl) = 0"
    using leaving_delete[OF d reg, of "PlayerLeft (clientId cd)"] u by simp
  have "filter ?P cl' = []"
  proof (rule ccontr)
    assume "filter ?P cl' \<noteq> []"
    then obtain p where p: "p \<in> set cl'" "?P p"
      by (metis filter_False)
    have "fst p \<noteq> w" using p(1) un by (auto simp: map_of_eq_None_iff)
    with p(1) sub have "p \<in> set (AList.delete w cl)"
      by (auto simp: AList.delete_eq)
    with p(2) have "filter ?P (AList.delete w cl) \<noteq> []"
      by (auto simp: filter_empty_conv)
    with del show False by (simp add: leaving_def)
  qed
  then show ?thesis by (simp add: leaving_def)
qed

lemma turn_keeps:
  assumes "\<not> sendFails (socks s r)" and "r \<noteq> w \<or> isAlive (socks s r)"
  shows "map_of (clients (heartbeat_turn w s)) r = map_of (clients s) r"
proof (cases "isAlive (socks s w)")
  case True
  then show ?thesis by (simp add: heartbeat_turn_def ws_ping_def Let_def)
next
  case False
  with assms(2) have "r \<noteq> w" by auto
  with broadcast_keeps(2)[of s r w] assms(1) False show ?thesis
    by (simp add: heartbeat_turn_def liveness_timeout_def ws_terminate_def)
qed

lemma sweep_keeps:
  "\<not> sendFails (socks s r) \<Longrightarrow> distinct ks \<Longrightarrow> r \<notin> set ks \<or> isAlive (socks s r) \<Longrightarrow>
     map_of (clients (heartbeatInterval_forEach ks s)) r = map_of (clients s) r"
proof (induction ks arbitrary: s)
  case Nil
  show ?case by simp
next
  case (Cons k ks)
  have a: "r \<noteq> k \<or> isAlive (socks s r)" using Cons.prems(3) by auto
  have f': "\<not> sendFails (socks (heartbeat_turn k s) r)"
    using Cons.prems(1) turn_socks_self[of k s] turn_socks_other[of r k s]
    by (cases "r = k") auto
  have a': "r \<notin> set ks \<or> isAlive (socks (heartbeat_turn k s) r)"
  proof (cases "r = k")
    case True
    with Cons.prems(2) show ?thesis by simp
  next
    case False
    with Cons.prems(3) turn_socks_other[of r k s] show ?thesis by auto
  qed
  from Cons.prems(2) have dk: "distinct ks" by simp
  from Cons.IH[OF f' dk a'] turn_keeps[OF Cons.prems(1) a] show ?case
    by (simp add: heartbeatInterval_forEach_Cons)
qed

lemma two_sweeps_gone:
  assumes "w \<in> set (wssClients s)" and "w \<notin> set acks"
  shows "gone w (two_sweeps acks s)"
proof -
  let ?s1 = "heartbeatInterval s"
  let ?s2 = "pongs acks ?s1"
  have "\<not> isAlive (socks ?s1 w)"
    using assms(1) by (simp add: heartbeatInterval_def sweep_clears_alive)
  then have dead: "\<not> isAlive (socks ?s2 w)"
    using assms(2) by (simp add: pongs_socks)
  have "wssClients ?s2 = wssClients s"
    by (simp add: pongs_frame heartbeatInterval_def heartbeatInterval_forEach_frame)
  with assms(1) have "w \<in> set (wssClients ?s2)" by simp
  from sweep_evicts[OF this dead] show ?thesis
    by (simp add: two_sweeps_def heartbeatInterval_def[of ?s2])
qed

lemma two_sweeps_subset: "set (clients (two_sweeps acks s)) \<subseteq> set (clients s)"
proof -
  have "set (clients (two_sweeps acks s)) \<subseteq> set (clients (pongs acks (heartbeatInterval s)))"
    unfolding two_sweeps_def heartbeatInterval_def[of "pongs acks (heartbeatInterval s)"]
    by (rule sweep_subset)
  also have "\<dots> = set (clients (heartbeatInterval s))" by (simp add: pongs_frame)
  also have "\<dots> \<subseteq> set (clients s)" unfolding heartbeatInterval_def by (rule sweep_subset)
  finally show ?thesis .
qed

lemma two_sweeps_conservation:
  assumes d: "distinct (map fst (clients s))" and dw: "distinct (wssClients s)"
    and h: "healthy r s" and al: "isAlive (socks s r)" and ack: "r \<in> set acks"
  shows "delivered r f (two_sweeps acks s) + leaving f (clients (two_sweeps acks s)) =
         delivered r f s + leaving f (clients s)"
proof -
  let ?s1 = "heartbeatInterval s"
  let ?s2 = "pongs acks ?s1"
  from sweep_conservation[OF d h dw, of f] al
  have h1: "healthy r ?s1"
    and c1: "delivered r f ?s1 + leaving f (clients ?s1) = delivered r f s + leaving f (clients s)"
    by (simp_all add: heartbeatInterval_def)
  have d2: "distinct (map fst (clients ?s2))"
    using sweep_distinct[OF d, of "wssClients s"]
    by (simp add: pongs_frame heartbeatInterval_def)
  have h2: "healthy r ?s2"
    using h1 by (simp add: healthy_def pongs_frame pongs_socks)
  have dw2: "distinct (wssClients ?s2)"
    using dw by (simp add: pongs_frame heartbeatInterval_def heartbeatInterval_forEach_frame)
  have al2: "isAlive (socks ?s2 r)" using ack by (simp add: pongs_socks)
  from sweep_conservation[OF d2 h2 dw2, of f] al2
  have "delivered r f (two_sweeps acks s) + leaving f (clients (two_sweeps acks s)) =
        delivered r f ?s2 + leaving f (clients ?s2)"
    by (simp add: two_sweeps_def heartbeatInterval_def[of ?s2])
  also have "\<dots> = delivered r f ?s1 + leaving f (clients ?s1)"
    by (simp add: delivered_def pongs_frame)
  finally show ?thesis using c1 by simp
qed

lemma on_close_gone:
  assumes "map_of (clients s) w = None"
  shows "clients (on_close w s) = clients s \<and> sent (on_close w s) = sent s \<and>
         pendingUpdates (on_close w s) = pendingUpdates s"
  using assms by (simp add: on_close_def disconnect_absent)

subsection \<open>The Maps of a reachable state\<close>

lemma keys_delete: "fst ` set (AList.delete k al) = fst ` set al - {k}"
  by (auto simp: AList.delete_eq)

lemma broadcast_queues_registered:
  "fst ` set (pendingUpdates s) \<subseteq> fst ` set (clients s) \<longrightarrow>
     fst ` set (pendingUpdates (broadcastImmediate_forEach ks m ex s)) \<subseteq>
       fst ` set (clients (broadcastImmediate_forEach ks m ex s))"
  "fst ` set (pendingUpdates s) \<subseteq> fst ` set (clients s) \<longrightarrow>
     fst ` set (pendingUpdates (handleClientDisconnect w s)) \<subseteq>
       fst ` set (clients (handleClientDisconnect w s))"
proof (induction ks m ex s and w s rule: broadcast_induct)
  case (Nil m ex s)
  show ?case by simp
next
  case (skip w rest m ex s)
  then show ?case by (simp add: forEach_skip)
next
  case (send w rest m ex s cd)
  then show ?case by (simp add: forEach_send)
next
  case (throw w rest m ex s cd)
  then show ?case by (simp add: forEach_throw)
next
  case (absent w s)
  then show ?case by (simp add: disconnect_absent)
next
  case (present w s cd)
  have "fst ` set (pendingUpdates s) \<subseteq> fst ` set (clients s) \<Longrightarrow>
        fst ` set (AList.delete w (pendingUpdates s)) \<subseteq> fst ` set (AList.delete w (clients s))"
    unfolding keys_delete by blast
  with present show ?case by (simp add: disconnect_present)
qed

lemma disconnect_wellformed: "wellformed s \<Longrightarrow> wellformed (handleClientDisconnect w s)"
  using broadcast_distinct(2)[of s w] broadcast_queues_registered(2)[of s w]
  by (simp add: wellformed_def broadcast_frame)

lemma broadcast_wellformed: "wellformed s \<Longrightarrow> wellformed (broadcastImmediate m ex s)"
  using broadcast_distinct(1)[of s "map fst (clients s)" m ex]
    broadcast_queues_registered(1)[of s "map fst (clients s)" m ex]
  by (simp add: wellformed_def broadcast_frame broadcastImmediate_def)

lemma pending_push_keys:
  "fst ` set (pending_push w m pu) = insert w (fst ` set pu)"
  by (auto simp: pending_push_def dom_map_entry dom_update dest!: map_of_SomeD
      intro: rev_image_eqI)

lemma pending_push_distinct:
  "distinct (map fst pu) \<Longrightarrow> distinct (map fst (pending_push w m pu))"
  by (simp add: pending_push_def distinct_map_entry distinct_update)

lemma batchBroadcast_forEach_wellformed:
  "set ks \<subseteq> fst ` set (clients s) \<Longrightarrow> wellformed s \<Longrightarrow>
     wellformed (batchBroadcast_forEach ks m ex s)"
proof (induction ks arbitrary: s)
  case Nil
  then show ?case by simp
next
  case (Cons k ks)
  let ?s1 = "s\<lparr>pendingUpdates := pending_push k m (pendingUpdates s)\<rparr>"
  have "wellformed ?s1"
    using Cons.prems by (auto simp: wellformed_def pending_push_keys pending_push_distinct)
  moreover have "set ks \<subseteq> fst ` set (clients ?s1)" using Cons.prems(1) by simp
  ultimately have "wellformed (batchBroadcast_forEach ks m ex ?s1)" using Cons.IH by blast
  moreover have "wellformed (batchBroadcast_forEach ks m ex s)"
    using Cons.IH Cons.prems by simp
  ultimately show ?case by simp
qed

lemma batchBroadcast_wellformed:
  "wellformed s \<Longrightarrow> wellformed (batchBroadcast m ex False s)"
  using batchBroadcast_forEach_wellformed[of "map fst (clients s)" s m ex]
  by (simp add: batchBroadcast_def Let_def wellformed_def)

lemma update_wellformed:
  "wellformed s \<Longrightarrow> map_of (clients s) w = Some cd \<Longrightarrow>
     wellformed (s\<lparr>clients := AList.update w cd' (clients s)\<rparr>)"
  by (auto simp: wellformed_def distinct_update dom_update)

lemma ws_send_wellformed: "ws_send w m s = Inr s' \<Longrightarrow> wellformed s' = wellformed s"
  by (drule ws_send_frame) (simp add: wellformed_def)

lemma on_message_wellformed: "wellformed s \<Longrightarrow> wellformed (on_message w now msg s)"
proof (cases "map_of (clients s) w")
  case None
  assume "wellformed s"
  with None show ?thesis by (simp add: on_message_def split: inbound.splits)
next
  case (Some cd)
  assume wf: "wellformed s"
  let ?sd = "cd\<lparr>lastHeartbeat := now\<rparr>"
  let ?s1 = "s\<lparr>clients := AList.update w ?sd (clients s)\<rparr>"
  have wf1: "wellformed ?s1" using update_wellformed[OF wf Some] .
  have reg1: "map_of (clients ?s1) w = Some ?sd" by (simp add: update_conv')
  show ?thesis
  proof (cases msg)
    case Malformed
    with wf show ?thesis by (simp add: on_message_def)
  next
    case (PlayerUpdateIn st)
    have "\<And>cd'. wellformed (?s1\<lparr>clients := AList.update w cd' (clients ?s1)\<rparr>)"
      using update_wellformed[OF wf1 reg1] .
    from batchBroadcast_wellformed[OF this] wf1 PlayerUpdateIn Some show ?thesis
      by (simp add: on_message_def Let_def)
  next
    case (ChatMessageIn x)
    have "\<And>h. wellformed (?s1\<lparr>chatHistory := h\<rparr>)" using wf1 by (simp add: wellformed_def)
    from broadcast_wellformed[OF this] ChatMessageIn Some show ?thesis
      by (simp add: on_message_def Let_def)
  next
    case (EmoteCommandIn x)
    with broadcast_wellformed[OF wf1] wf1 Some show ?thesis
      by (simp add: on_message_def Let_def)
  next
    case (PingIn x)
    with wf1 Some show ?thesis
      by (auto simp: on_message_def Let_def split: sum.splits dest!: ws_send_wellformed)
  next
    case UnknownIn
    with wf1 Some show ?thesis by (simp add: on_message_def Let_def)
  qed
qed

lemma flush_forEach_wellformed_clients:
  "distinct (map fst (clients s)) \<Longrightarrow> distinct (map fst (clients (flush_forEach ks s)))"
  by (induction ks arbitrary: s)
     (simp_all add: flush_forEach_Cons flush_turn_distinct del: flush_forEach.simps(2))

lemma flush_timeout_wellformed: "wellformed s \<Longrightarrow> wellformed (flush_timeout s)"
  using flush_forEach_wellformed_clients[of "s\<lparr>scheduledFlushes := scheduledFlushes s - 1\<rparr>"
      "map fst (pendingUpdates s)"]
  by (simp add: wellformed_def flush_timeout_def flushBatchedUpdates_def Let_def
      flush_forEach_frame)

lemma turn_wellformed: "wellformed s \<Longrightarrow> wellformed (heartbeat_turn w s)"
  using disconnect_wellformed[of s w]
  by (simp add: heartbeat_turn_def liveness_timeout_def ws_terminate_def ws_ping_def
      wellformed_def Let_def)

lemma sweep_wellformed: "wellformed s \<Longrightarrow> wellformed (heartbeatInterval s)"
proof -
  have "\<And>s. wellformed s \<Longrightarrow> wellformed (heartbeatInterval_forEach ks s)" for ks
    by (induction ks) (simp_all add: heartbeatInterval_forEach_Cons turn_wellformed)
  then show "wellformed s \<Longrightarrow> wellformed (heartbeatInterval s)"
    by (simp add: heartbeatInterval_def)
qed

lemma on_close_wellformed: "wellformed s \<Longrightarrow> wellformed (on_close w s)"
proof -
  assume "wellformed s"
  then have "wellformed (s\<lparr>socks := (socks s)(w := (socks s w)\<lparr>readyState := CLOSED\<rparr>),
          wssClients := removeAll w (wssClients s)\<rparr>)"
    by (simp add: wellformed_def distinct_removeAll)
  from disconnect_wellformed[OF this] show ?thesis by (simp add: on_close_def)
qed

lemma connection_event_wellformed:
  assumes "wellformed s" and "w \<notin> set (wssClients s)"
    and "connection_event w newId t1 t2 t3 t4 s = Inr s'"
  shows "wellformed s'"
proof -
  let ?cd = "\<lparr>clientId = newId, state = initialState t1, lastUpdate = t2, lastHeartbeat = t3\<rparr>"
  let ?s2 = "s\<lparr>wssClients := wssClients s @ [w],
               clients := AList.update w ?cd (clients s),
               socks := (socks s)(w := (socks s w)\<lparr>isAlive := True\<rparr>)\<rparr>"
  have wf2: "wellformed ?s2"
    using assms(1,2) by (auto simp: wellformed_def distinct_update dom_update)
  from assms(3) obtain s5 where "wellformed s5 = wellformed ?s2"
    and "s' = broadcastImmediate (PlayerJoined newId (initialState t1)) (Some w) s5"
    by (auto simp: connection_event_def on_connection_def Let_def
        split: sum.splits if_splits dest!: ws_send_wellformed)
  with wf2 broadcast_wellformed show ?thesis by simp
qed

lemma reachable_wellformed: "reachable s \<Longrightarrow> wellformed s"
proof (induction rule: reachable.induct)
  case start
  show ?case by (simp add: wellformed_def initial_server_def)
next
  case (environment s w rs b)
  then show ?case by (simp add: wellformed_def)
next
  case (connection s w newId tState tUpdate tHeartbeat tServer s')
  from connection_event_wellformed[OF connection.IH connection.hyps(2) connection.hyps(5)]
  show ?case .
next
  case (message s w now msg)
  then show ?case by (simp add: on_message_wellformed)
next
  case (close s w)
  then show ?case by (simp add: on_close_wellformed)
next
  case (error s w)
  then show ?case by (simp add: on_error_def disconnect_wellformed)
next
  case (pong s w)
  then show ?case by (simp add: heartbeat_def wellformed_def)
next
  case (sweep s)
  then show ?case by (simp add: sweep_wellformed)
next
  case (timeout s)
  then show ?case by (simp add: flush_timeout_wellformed)
qed

subsection \<open>The run, continued\<close>

lemma joined2_connects:
  "connection_event 2 ''bbbbbb'' 1500 1500 1500 1500 opened2 = Inr joined2"
proof -
  let ?s = "opened2\<lparr>wssClients := wssClients opened2 @ [2]\<rparr>"
  have "readyState (socks ?s 2) = OPEN" "\<not> sendFails (socks ?s 2)"
    by (simp_all add: opened2_def)
  from on_connection_open[OF this] show ?thesis
    by (simp add: connection_event_def joined2_def)
qed

lemma reachable_closing2: "reachable closing2"
proof -
  have "reachable opened2"
    unfolding opened2_def by (rule reachable.environment[OF reachable_joined1])
  moreover have "2 \<notin> set (wssClients opened2)" "map_of (clients opened2) 2 = None"
    "readyState (socks opened2 2) = OPEN"
    by (simp_all add: opened2_def joined1_def)
  ultimately have "reachable joined2"
    using joined2_connects by (rule reachable.connection)
  then have "reachable queued2"
    unfolding queued2_def by (rule reachable.message)
  then show ?thesis
    unfolding closing2_def by (rule reachable.environment)
qed

lemma joined2_state:
  "clients joined2 = [(1, ex_alice), (2, ex_bob)] \<and> pendingUpdates joined2 = [] \<and>
   \<not> updateBatchTimer joined2 \<and> scheduledFlushes joined2 = 0 \<and>
   readyState (socks joined2 1) = OPEN \<and> readyState (socks joined2 2) = OPEN \<and>
   sent joined2 =
     [(1, AssignId ''aaaaaa'' (initialState 1000) 1000),
      (2, AssignId ''bbbbbb'' (initialState 1500) 1500),
      (2, ExistingPlayers [(''aaaaaa'', initialState 1000)]),
      (1, PlayerJoined ''bbbbbb'' (initialState 1500))]"
  by (simp add: joined2_def registered_new_def opened2_def joined1_def broadcastImmediate_def
      ex_alice_def ex_bob_def initial_server_def connection_prefix_def existingPlayersData_def
      broadcastImmediate_forEach.simps(2) ws_send_def)

lemma closing2_state:
  "map_of (pendingUpdates closing2) 2 = Some [PlayerUpdate ''aaaaaa'' ex_stamped] \<and>
   scheduledFlushes closing2 = 1 \<and> updateBatchTimer closing2 \<and>
   readyState (socks closing2 2) = CLOSING \<and>
   pendingUpdates closing2 = [(2, [PlayerUpdate ''aaaaaa'' ex_stamped])] \<and>
   sent closing2 = sent joined2"
  using joined2_state
  by (simp add: closing2_def queued2_def on_message_def Let_def ex_alice_def
      ex_stamped_def ex_moved_significant ex_moved_timestamp
      batchBroadcast_def pending_push_def timestamp_or_def
      batchBroadcast_forEach_frame)

section \<open>The claims\<close>

subsection \<open>C1: an insignificant update\<close>

text \<open>
  Claim C1 says that a \<^verbatim>\<open>player_update\<close> whose state is not significant against the
  sender's stored state (every positional axis within 0.001, rotation within 0.001,
  \<^verbatim>\<open>isMoving\<close> and \<^verbatim>\<open>isGrounded\<close> unchanged) is broadcast to nobody, and that
  the sender's stored state is nevertheless replaced by the new state.

  The first half holds and the second does not: lines 212 to 224 assign
  \<^verbatim>\<open>senderData.state\<close> only inside the branch guarded by
  \<^verbatim>\<open>hasSignificantChange\<close>. The theorem is C1 as amended. An axis is within 0.001
  when \<^verbatim>\<open>Math.abs(old - new) > 0.001\<close> is false, with the subtraction and the literal
  of binary64. For a registered sender and such an update the handler changes the
  sender's \<^verbatim>\<open>lastHeartbeat\<close> and nothing else; no frame is sent, no queue and no
  timer changes, and the stored state is the one stored before.
\<close>

theorem insignificant_update_not_broadcast:
  assumes "map_of (clients s) w = Some senderData"
    and "\<not> js_gt (Math_abs (js_minus (vx (position (state senderData))) (vx (position st))))
             (binary64 4611686018427388 (- 62))"
    and "\<not> js_gt (Math_abs (js_minus (vy (position (state senderData))) (vy (position st))))
             (binary64 4611686018427388 (- 62))"
    and "\<not> js_gt (Math_abs (js_minus (vz (position (state senderData))) (vz (position st))))
             (binary64 4611686018427388 (- 62))"
    and "\<not> js_gt (Math_abs (js_minus (rotationY (state senderData)) (rotationY st)))
             (binary64 4611686018427388 (- 62))"
    and "isMoving st = isMoving (state senderData)"
    and "isGrounded st = isGrounded (state senderData)"
  shows "on_message w now (PlayerUpdateIn st) s =
           s\<lparr>clients := AList.update w (senderData\<lparr>lastHeartbeat := now\<rparr>) (clients s)\<rparr> \<and>
         sent (on_message w now (PlayerUpdateIn st) s) = sent s \<and>
         pendingUpdates (on_message w now (PlayerUpdateIn st) s) = pendingUpdates s \<and>
         updateBatchTimer (on_message w now (PlayerUpdateIn st) s) = updateBatchTimer s \<and>
         scheduledFlushes (on_message w now (PlayerUpdateIn st) s) = scheduledFlushes s \<and>
         map_option state (map_of (clients (on_message w now (PlayerUpdateIn st) s)) w) =
           Some (state senderData)"
proof -
  have "\<not> hasSignificantChange (Some (state senderData)) st"
    using assms(2-7)
    by (simp add: hasSignificantChange_def POSITION_THRESHOLD_def ROTATION_THRESHOLD_def)
  then have eq: "on_message w now (PlayerUpdateIn st) s =
           s\<lparr>clients := AList.update w (senderData\<lparr>lastHeartbeat := now\<rparr>) (clients s)\<rparr>"
    using assms(1) by (simp add: on_message_def)
  show ?thesis unfolding eq by (simp add: update_conv')
qed

text \<open>
  Witness for C1: connection 1 of \<open>two_clients\<close> sends its initial state moved by
  0.0005 along x.
\<close>

theorem insignificant_update_not_broadcast_witness:
  "map_of (clients two_clients) 1 = Some ex_alice \<and>
   \<not> js_gt (Math_abs (js_minus (vx (position (state ex_alice))) (vx (position ex_new))))
       (binary64 4611686018427388 (- 62)) \<and>
   \<not> js_gt (Math_abs (js_minus (vy (position (state ex_alice))) (vy (position ex_new))))
       (binary64 4611686018427388 (- 62)) \<and>
   \<not> js_gt (Math_abs (js_minus (vz (position (state ex_alice))) (vz (position ex_new))))
       (binary64 4611686018427388 (- 62)) \<and>
   \<not> js_gt (Math_abs (js_minus (rotationY (state ex_alice)) (rotationY ex_new)))
       (binary64 4611686018427388 (- 62)) \<and>
   isMoving ex_new = isMoving (state ex_alice) \<and>
   isGrounded ex_new = isGrounded (state ex_alice) \<and>
   on_message 1 2000 (PlayerUpdateIn ex_new) two_clients =
     two_clients\<lparr>clients :=
       AList.update 1 (ex_alice\<lparr>lastHeartbeat := 2000\<rparr>) (clients two_clients)\<rparr> \<and>
   sent (on_message 1 2000 (PlayerUpdateIn ex_new) two_clients) = sent two_clients \<and>
   pendingUpdates (on_message 1 2000 (PlayerUpdateIn ex_new) two_clients) =
     pendingUpdates two_clients \<and>
   map_option state (map_of (clients (on_message 1 2000 (PlayerUpdateIn ex_new) two_clients)) 1) =
     Some (state ex_alice)"
proof -
  have h1: "map_of (clients two_clients) 1 = Some ex_alice"
    by (simp add: two_clients_def)
  have h2: "\<not> js_gt (Math_abs (js_minus (vx (position (state ex_alice))) (vx (position ex_new))))
       (binary64 4611686018427388 (- 62))"
    and h3: "\<not> js_gt (Math_abs (js_minus (vy (position (state ex_alice))) (vy (position ex_new))))
       (binary64 4611686018427388 (- 62))"
    and h4: "\<not> js_gt (Math_abs (js_minus (vz (position (state ex_alice))) (vz (position ex_new))))
       (binary64 4611686018427388 (- 62))"
    and h5: "\<not> js_gt (Math_abs (js_minus (rotationY (state ex_alice)) (rotationY ex_new)))
       (binary64 4611686018427388 (- 62))"
    and h6: "isMoving ex_new = isMoving (state ex_alice)"
    and h7: "isGrounded ex_new = isGrounded (state ex_alice)"
    by (simp_all add: ex_alice_def ex_new_def initialState_def js_minus_zero_binary64
        Math_abs_binary64 js_gt_binary64 js_gt_Finite_binary64 round64_zero)
  from insignificant_update_not_broadcast[OF h1 h2 h3 h4 h5 h6 h7, of 2000] h1 h2 h3 h4 h5 h6 h7
  show ?thesis by blast
qed

text \<open>
  Counterexample to C1 as stated, in the reachable state \<open>joined1\<close>: the update
  \<open>ex_new\<close> of connection 1 is not significant, and after the handler the stored
  state of the connection is still its initial state, whose position differs from the
  position of the update.
\<close>

theorem stored_state_replaced_counterexample:
  "reachable joined1 \<and>
   \<not> hasSignificantChange (Some (initialState 1000)) ex_new \<and>
   map_option state (map_of (clients (on_message 1 2000 (PlayerUpdateIn ex_new) joined1)) 1) =
     Some (initialState 1000) \<and>
   position (initialState 1000) \<noteq> position ex_new"
proof -
  have "position (initialState 1000) \<noteq> position ex_new"
    by (simp add: ex_new_def initialState_def binary64_def)
  with reachable_joined1 ex_new_insignificant[of 1000] show ?thesis
    by (simp add: on_message_def joined1_def ex_alice_def)
qed

subsection \<open>C2: the significance predicate\<close>

text \<open>
  Claim C2: \<^verbatim>\<open>hasSignificantChange(old, new)\<close> is true exactly when \<open>old\<close> is absent,
  or some positional axis differs by more than 0.001, or the rotation differs by more
  than 0.001, or \<^verbatim>\<open>isMoving\<close> or \<^verbatim>\<open>isGrounded\<close> differs. In particular it is
  true for a first update with no prior state, and velocity, \<^verbatim>\<open>velocityY\<close> and the
  time stamps play no part: changing them in either argument does not change the result,
  and a state that differs from the old one in these fields only is not significant.

  Two numbers differ by more than 0.001 when \<^verbatim>\<open>Math.abs(a - b) > 0.001\<close>, with the
  rounding subtraction of binary64 and the binary64 value of the literal, 4611686018427388
  times \<^verbatim>\<open>2^-62\<close>. The last part of the theorem says what this is for two finite
  numbers \<open>x\<close> and \<open>y\<close> (in units of \<^verbatim>\<open>2^-1074\<close>, where the literal is
  4611686018427388 times \<^verbatim>\<open>2^1012\<close>): the exact difference is more than the literal
  and half a unit of its last place, \<^verbatim>\<open>2^1011\<close> units, which is \<^verbatim>\<open>2^-63\<close>.
\<close>

theorem hasSignificantChange_iff:
  "(hasSignificantChange oldState newState \<longleftrightarrow>
      oldState = None \<or>
      (\<exists>old. oldState = Some old \<and>
         (js_gt (Math_abs (js_minus (vx (position old)) (vx (position newState))))
            (binary64 4611686018427388 (- 62)) \<or>
          js_gt (Math_abs (js_minus (vy (position old)) (vy (position newState))))
            (binary64 4611686018427388 (- 62)) \<or>
          js_gt (Math_abs (js_minus (vz (position old)) (vz (position newState))))
            (binary64 4611686018427388 (- 62)) \<or>
          js_gt (Math_abs (js_minus (rotationY old) (rotationY newState)))
            (binary64 4611686018427388 (- 62)) \<or>
          isMoving old \<noteq> isMoving newState \<or>
          isGrounded old \<noteq> isGrounded newState))) \<and>
   hasSignificantChange None newState \<and>
   hasSignificantChange (Some old)
       (newState\<lparr>velocity := vel, velocityY := velY, timestamp := ts,
                  serverTimestamp := sts, clientTimestamp := cts\<rparr>) =
     hasSignificantChange (Some old) newState \<and>
   hasSignificantChange
       (Some (old\<lparr>velocity := vel, velocityY := velY, timestamp := ts,
                   serverTimestamp := sts, clientTimestamp := cts\<rparr>)) newState =
     hasSignificantChange (Some old) newState \<and>
   \<not> hasSignificantChange (Some old)
       (old\<lparr>velocity := vel, velocityY := velY, timestamp := ts,
              serverTimestamp := sts, clientTimestamp := cts\<rparr>) \<and>
   (js_gt (Math_abs (js_minus (Finite x) (Finite y))) (binary64 4611686018427388 (- 62)) \<longleftrightarrow>
      \<bar>x - y\<bar> > 4611686018427388 * 2 ^ 1012 + 2 ^ 1011)"
proof -
  have same: "\<not> hasSignificantChange (Some old)
       (old\<lparr>velocity := vel, velocityY := velY, timestamp := ts,
              serverTimestamp := sts, clientTimestamp := cts\<rparr>)"
    using js_gt_same_not
    by (simp add: hasSignificantChange_def POSITION_THRESHOLD_def ROTATION_THRESHOLD_def)
  have rest: "(hasSignificantChange oldState newState \<longleftrightarrow>
      oldState = None \<or>
      (\<exists>old. oldState = Some old \<and>
         (js_gt (Math_abs (js_minus (vx (position old)) (vx (position newState))))
            (binary64 4611686018427388 (- 62)) \<or>
          js_gt (Math_abs (js_minus (vy (position old)) (vy (position newState))))
            (binary64 4611686018427388 (- 62)) \<or>
          js_gt (Math_abs (js_minus (vz (position old)) (vz (position newState))))
            (binary64 4611686018427388 (- 62)) \<or>
          js_gt (Math_abs (js_minus (rotationY old) (rotationY newState)))
            (binary64 4611686018427388 (- 62)) \<or>
          isMoving old \<noteq> isMoving newState \<or>
          isGrounded old \<noteq> isGrounded newState))) \<and>
   hasSignificantChange None newState \<and>
   hasSignificantChange (Some old)
       (newState\<lparr>velocity := vel, velocityY := velY, timestamp := ts,
                  serverTimestamp := sts, clientTimestamp := cts\<rparr>) =
     hasSignificantChange (Some old) newState \<and>
   hasSignificantChange
       (Some (old\<lparr>velocity := vel, velocityY := velY, timestamp := ts,
                   serverTimestamp := sts, clientTimestamp := cts\<rparr>)) newState =
     hasSignificantChange (Some old) newState"
    by (cases oldState)
       (auto simp: hasSignificantChange_def POSITION_THRESHOLD_def ROTATION_THRESHOLD_def Let_def)
  from rest same js_gt_round64_threshold[of x y] show ?thesis by blast
qed

text \<open>
  Witness for C2, at the threshold: from x = 0.299 (5386305154335113 times
  \<^verbatim>\<open>2^-54\<close>) to x = 0.3 (5404319552844595 times \<^verbatim>\<open>2^-54\<close>) the difference is
  0.0010000000000000009 and the change is significant; from y = 100 to y = 100.001
  (3518437208883200 and 3518472393255289 times \<^verbatim>\<open>2^-45\<close>) it is
  0.0010000000000047748 and significant; from rotation 0 to rotation 0.001 it is the
  literal itself and not significant. Any state is significant against an absent one,
  and a change of velocity and time stamps alone is not. The difference of 0.001 and
  \<^verbatim>\<open>-2^-63\<close> lies halfway between the literal and the next value and rounds to
  the literal: it is not more than 0.001 for the program.
\<close>

theorem hasSignificantChange_iff_witness:
  "hasSignificantChange
      (Some (ex_old\<lparr>position :=
         \<lparr>vx = binary64 5386305154335113 (- 54), vy = Finite 0, vz = Finite 0\<rparr>\<rparr>))
      (ex_old\<lparr>position :=
         \<lparr>vx = binary64 5404319552844595 (- 54), vy = Finite 0, vz = Finite 0\<rparr>\<rparr>) \<and>
   hasSignificantChange
      (Some (ex_old\<lparr>position :=
         \<lparr>vx = Finite 0, vy = binary64 3518437208883200 (- 45), vz = Finite 0\<rparr>\<rparr>))
      (ex_old\<lparr>position :=
         \<lparr>vx = Finite 0, vy = binary64 3518472393255289 (- 45), vz = Finite 0\<rparr>\<rparr>) \<and>
   \<not> hasSignificantChange (Some ex_old)
       (ex_old\<lparr>rotationY := binary64 4611686018427388 (- 62)\<rparr>) \<and>
   hasSignificantChange None ex_old \<and>
   \<not> hasSignificantChange (Some ex_old)
       (ex_old\<lparr>velocity := \<lparr>vx = binary64 5 0, vy = Finite 0, vz = Finite 0\<rparr>,
                velocityY := binary64 9 0, timestamp := Some 7,
                serverTimestamp := Some 8, clientTimestamp := None\<rparr>) \<and>
   \<not> js_gt (Math_abs (js_minus (Finite (4611686018427388 * 2 ^ 1012)) (Finite (- (2 ^ 1011)))))
       (binary64 4611686018427388 (- 62))"
proof -
  note ev = ex_old_def initialState_def binary64_minus js_minus_zero_binary64
    Math_abs_binary64 js_gt_binary64 js_gt_Finite_binary64 round64_zero
  have a: "hasSignificantChange
      (Some (ex_old\<lparr>position :=
         \<lparr>vx = binary64 5386305154335113 (- 54), vy = Finite 0, vz = Finite 0\<rparr>\<rparr>))
      (ex_old\<lparr>position :=
         \<lparr>vx = binary64 5404319552844595 (- 54), vy = Finite 0, vz = Finite 0\<rparr>\<rparr>)"
    using hasSignificantChange_iff[where
        oldState = "Some (ex_old\<lparr>position :=
           \<lparr>vx = binary64 5386305154335113 (- 54), vy = Finite 0, vz = Finite 0\<rparr>\<rparr>)"
        and newState = "ex_old\<lparr>position :=
           \<lparr>vx = binary64 5404319552844595 (- 54), vy = Finite 0, vz = Finite 0\<rparr>\<rparr>"]
    by (simp add: ev)
  have b: "hasSignificantChange
      (Some (ex_old\<lparr>position :=
         \<lparr>vx = Finite 0, vy = binary64 3518437208883200 (- 45), vz = Finite 0\<rparr>\<rparr>))
      (ex_old\<lparr>position :=
         \<lparr>vx = Finite 0, vy = binary64 3518472393255289 (- 45), vz = Finite 0\<rparr>\<rparr>)"
    using hasSignificantChange_iff[where
        oldState = "Some (ex_old\<lparr>position :=
           \<lparr>vx = Finite 0, vy = binary64 3518437208883200 (- 45), vz = Finite 0\<rparr>\<rparr>)"
        and newState = "ex_old\<lparr>position :=
           \<lparr>vx = Finite 0, vy = binary64 3518472393255289 (- 45), vz = Finite 0\<rparr>\<rparr>"]
    by (simp add: ev)
  have c: "\<not> hasSignificantChange (Some ex_old)
       (ex_old\<lparr>rotationY := binary64 4611686018427388 (- 62)\<rparr>)"
    using hasSignificantChange_iff[where oldState = "Some ex_old"
        and newState = "ex_old\<lparr>rotationY := binary64 4611686018427388 (- 62)\<rparr>"]
    by (simp add: ev)
  have d: "hasSignificantChange None ex_old"
    and e: "\<not> hasSignificantChange (Some ex_old)
       (ex_old\<lparr>velocity := \<lparr>vx = binary64 5 0, vy = Finite 0, vz = Finite 0\<rparr>,
                velocityY := binary64 9 0, timestamp := Some 7,
                serverTimestamp := Some 8, clientTimestamp := None\<rparr>)"
    using hasSignificantChange_iff[where newState = ex_old and old = ex_old
        and vel = "\<lparr>vx = binary64 5 0, vy = Finite 0, vz = Finite 0\<rparr>" and velY = "binary64 9 0"
        and ts = "Some 7" and sts = "Some 8" and cts = None]
    by blast+
  have "js_gt (Math_abs (js_minus (Finite (4611686018427388 * 2 ^ 1012)) (Finite (- (2 ^ 1011)))))
          (binary64 4611686018427388 (- 62)) \<longleftrightarrow>
        \<bar>4611686018427388 * 2 ^ 1012 - - (2 ^ 1011)\<bar> > (4611686018427388 * 2 ^ 1012 + 2 ^ 1011 :: int)"
    using hasSignificantChange_iff[where x = "4611686018427388 * 2 ^ 1012" and y = "- (2 ^ 1011)"]
    by blast
  then have f: "\<not> js_gt (Math_abs (js_minus (Finite (4611686018427388 * 2 ^ 1012))
          (Finite (- (2 ^ 1011))))) (binary64 4611686018427388 (- 62))"
    by simp
  from a b c d e f show ?thesis by blast
qed

subsection \<open>C3: what a new connection is sent\<close>

text \<open>
  Claim C3: on a new connection the new socket is sent, in this order, \<^verbatim>\<open>assign_id\<close>
  with the generated id, the initial state and the server time; \<^verbatim>\<open>existing_players\<close>
  with the id and state of every other registered connection, left out when there is
  none; \<^verbatim>\<open>chat_history\<close> with the whole chat buffer, left out when it is empty; and
  only then \<^verbatim>\<open>player_joined\<close> is broadcast to the other connections and not to the
  new one.

  The socket of a \<^verbatim>\<open>connection\<close> event is open, and the theorem is about a socket
  whose sends do not throw. The payloads are written out: \<open>st0\<close> is the initial
  state of lines 152 to 160 (at the origin, not moving, grounded, stamped with the time
  of line 159), and \<open>others\<close> are the entries of the registry before the handler
  whose key is not the new socket, in the order of the registry. The log after the
  handler is the log before it, then \<^verbatim>\<open>assign_id\<close> with the id, \<open>st0\<close> and the
  server time, then \<^verbatim>\<open>existing_players\<close> with the id and state of each of
  \<open>others\<close> unless there is none, then \<^verbatim>\<open>chat_history\<close> with the buffer unless it
  is empty, and then the frames \<open>rest\<close> of the broadcast: every frame of \<open>rest\<close>
  is \<^verbatim>\<open>player_joined\<close> with the id and \<open>st0\<close> on a socket other than the new one,
  or a \<^verbatim>\<open>player_left\<close> (sent when a send of the broadcast throws), and every other
  connection that is registered, open and accepts sends is sent the event exactly once
  (the keys of the registry being distinct).
\<close>

theorem connection_sends_in_order:
  assumes "readyState (socks s w) = OPEN" and "\<not> sendFails (socks s w)"
  shows
    "let st0 = \<lparr>position = \<lparr>vx = Finite 0, vy = Finite 0, vz = Finite 0\<rparr>,
                rotationY = Finite 0, isMoving = False, isGrounded = True,
                velocityY = Finite 0,
                velocity = \<lparr>vx = Finite 0, vy = Finite 0, vz = Finite 0\<rparr>,
                timestamp = Some tState, serverTimestamp = None, clientTimestamp = None\<rparr>;
         others = filter (\<lambda>(k, cd). k \<noteq> w) (clients s)
     in \<exists>s' rest.
          on_connection w newId tState tUpdate tHeartbeat tServer s = Inr s' \<and>
          sent s' =
            sent s @
            [(w, AssignId newId st0 tServer)] @
            (if others = [] then []
             else [(w, ExistingPlayers (map (\<lambda>(k, cd). (clientId cd, state cd)) others))]) @
            (if chatHistory s = [] then [] else [(w, ChatHistoryFrame (chatHistory s))]) @
            rest \<and>
          (\<forall>p \<in> set rest.
             (snd p = PlayerJoined newId st0 \<and> fst p \<noteq> w) \<or> (\<exists>i. snd p = PlayerLeft i)) \<and>
          (\<forall>r. distinct (map fst (clients s)) \<and> map_of (clients s) r \<noteq> None \<and>
                readyState (socks s r) = OPEN \<and> \<not> sendFails (socks s r) \<and> r \<noteq> w \<longrightarrow>
             count_list rest (r, PlayerJoined newId st0) = 1)"
proof -
  let ?m = "PlayerJoined newId (initialState tState)"
  let ?s5 = "registered_new w newId tState tUpdate tHeartbeat tServer s"
  let ?s' = "broadcastImmediate ?m (Some w) ?s5"
  let ?ks = "map fst (clients ?s5)"
  have run: "on_connection w newId tState tUpdate tHeartbeat tServer s = Inr ?s'"
    using on_connection_open[OF assms] .
  from broadcast_sent_frames(1)[of ?ks ?m "Some w" ?s5] obtain rest where
    rest: "sent ?s' = sent ?s5 @ rest"
    and frames: "\<forall>p \<in> set rest. (snd p = ?m \<and> fst p \<noteq> w) \<or> (\<exists>i. snd p = PlayerLeft i)"
    by (auto simp: broadcastImmediate_def)
  have log: "sent ?s' =
       sent s @
       [(w, AssignId newId (initialState tState) tServer)] @
       (if existingPlayersData w s = [] then []
        else [(w, ExistingPlayers (existingPlayersData w s))]) @
       (if chatHistory s = [] then [] else [(w, ChatHistoryFrame (chatHistory s))]) @
       rest"
    using rest by (simp add: registered_new_def connection_prefix_def)
  have others: "\<forall>r. distinct (map fst (clients s)) \<and> map_of (clients s) r \<noteq> None \<and>
                readyState (socks s r) = OPEN \<and> \<not> sendFails (socks s r) \<and> r \<noteq> w \<longrightarrow>
        count_list rest (r, ?m) = 1"
  proof (intro allI impI)
    fix r
    assume a: "distinct (map fst (clients s)) \<and> map_of (clients s) r \<noteq> None \<and>
                readyState (socks s r) = OPEN \<and> \<not> sendFails (socks s r) \<and> r \<noteq> w"
    then have d5: "distinct (map fst (clients ?s5))"
      by (simp add: registered_new_def distinct_update)
    have "healthy r s" using a unfolding healthy_def by blast
    then have h5: "healthy r ?s5" using a healthy_registered_new by blast
    have "r \<in> set ?ks"
      using h5 by (simp add: healthy_def map_of_eq_None_iff)
    then have c: "count_list ?ks r = 1" using count_list_distinct[OF d5, of r] by simp
    from broadcast_conservation(1)[of ?s5 r ?m ?ks ?m "Some w"] d5 h5 c a
    have "delivered r ?m ?s' = delivered r ?m ?s5 + 1"
      by (simp add: broadcastImmediate_def)
    then show "count_list rest (r, ?m) = 1"
      using rest by (simp add: delivered_def)
  qed
  from run log frames others show ?thesis
    unfolding Let_def initialState_def existingPlayersData_def map_is_Nil_conv by blast
qed

text \<open>
  Witness for C3: a second socket connects to \<open>lobby\<close>, where one connection is
  registered and one chat entry is stored; the four frames of the handler, in order.
\<close>

theorem connection_sends_in_order_witness:
  "readyState (socks lobby 2) = OPEN \<and> \<not> sendFails (socks lobby 2) \<and>
   (\<exists>s'. on_connection 2 ''bbbbbb'' 1500 1500 1500 1500 lobby = Inr s' \<and>
      sent s' =
        sent lobby @
          [(2, AssignId ''bbbbbb'' (initialState 1500) 1500),
           (2, ExistingPlayers [(''aaaaaa'', initialState 1000)]),
           (2, ChatHistoryFrame [ChatEntry ''aaaaaa'' ''hello'' 1200]),
           (1, PlayerJoined ''bbbbbb'' (initialState 1500))])"
proof -
  have h1: "readyState (socks lobby 2) = OPEN" and h2: "\<not> sendFails (socks lobby 2)"
    by (simp_all add: lobby_def)
  from connection_sends_in_order[OF h1 h2, where newId = "''bbbbbb''" and tState = 1500
      and tUpdate = 1500 and tHeartbeat = 1500 and tServer = 1500]
  obtain s' where "on_connection 2 ''bbbbbb'' 1500 1500 1500 1500 lobby = Inr s'"
    unfolding Let_def by blast
  with lobby_connection h1 h2 show ?thesis by simp
qed

subsection \<open>C4: the chat history\<close>

text \<open>
  Claim C4: the chat history has at most 25 entries in every state the server can be
  observed in; a chat message appends its entry at the back and, when the length then
  exceeds 25, removes exactly the front entry. So a push onto 25 entries yields the old
  entries without the first, in their order, followed by the new one: the former second
  entry is now first.
\<close>

theorem chatHistory_bounded_fifo:
  "(reachable s \<longrightarrow> length (chatHistory s) \<le> 25) \<and>
   (map_of (clients s) w = Some cd \<longrightarrow>
      chatHistory (on_message w now (ChatMessageIn content) s) =
        chatHistory_push (ChatEntry (clientId cd) content now) (chatHistory s)) \<and>
   chatHistory_push e h = (if length h < 25 then h @ [e] else tl h @ [e]) \<and>
   (length h = 25 \<longrightarrow>
      chatHistory_push e h = tl h @ [e] \<and>
      length (chatHistory_push e h) = 25 \<and>
      hd (chatHistory_push e h) = h ! 1 \<and>
      (\<forall>i<24. chatHistory_push e h ! i = h ! Suc i) \<and>
      last (chatHistory_push e h) = e)"
proof -
  have bounded: "reachable s \<longrightarrow> length (chatHistory s) \<le> 25"
    using reachable_chatHistory[of s] by (simp add: MAX_CHAT_HISTORY_def)
  have chat: "map_of (clients s) w = Some cd \<longrightarrow>
      chatHistory (on_message w now (ChatMessageIn content) s) =
        chatHistory_push (ChatEntry (clientId cd) content now) (chatHistory s)"
    by (simp add: on_message_def Let_def broadcastImmediate_def broadcast_frame)
  have push: "chatHistory_push e h = (if length h < 25 then h @ [e] else tl h @ [e])"
    by (cases h) (auto simp: chatHistory_push_def MAX_CHAT_HISTORY_def Let_def)
  have full: "length h = 25 \<longrightarrow>
      chatHistory_push e h = tl h @ [e] \<and>
      length (chatHistory_push e h) = 25 \<and>
      hd (chatHistory_push e h) = h ! 1 \<and>
      (\<forall>i<24. chatHistory_push e h ! i = h ! Suc i) \<and>
      last (chatHistory_push e h) = e"
  proof
    assume l: "length h = 25"
    then obtain a h' where h: "h = a # h'" and l': "length h' = 24" by (cases h) auto
    then obtain b h'' where h': "h' = b # h''" by (cases h') auto
    show "chatHistory_push e h = tl h @ [e] \<and>
      length (chatHistory_push e h) = 25 \<and>
      hd (chatHistory_push e h) = h ! 1 \<and>
      (\<forall>i<24. chatHistory_push e h ! i = h ! Suc i) \<and>
      last (chatHistory_push e h) = e"
      using l l' unfolding h h'
      by (auto simp: chatHistory_push_def MAX_CHAT_HISTORY_def Let_def nth_append nth_Cons
          split: nat.splits)
  qed
  from bounded chat push full show ?thesis by blast
qed

text \<open>
  Witness for C4: the reachable state \<open>joined1\<close>, a chat message of its connection,
  and a twenty-sixth entry pushed onto \<open>ex_history\<close>.
\<close>

theorem chatHistory_bounded_fifo_witness:
  "reachable joined1 \<and> map_of (clients joined1) 1 = Some ex_alice \<and>
   length ex_history = 25 \<and>
   length (chatHistory joined1) \<le> 25 \<and>
   chatHistory (on_message 1 2000 (ChatMessageIn ''hello'') joined1) =
     chatHistory_push (ChatEntry (clientId ex_alice) ''hello'' 2000) (chatHistory joined1) \<and>
   chatHistory_push (ChatEntry ''aaaaaa'' ''hello'' 25) ex_history =
     tl ex_history @ [ChatEntry ''aaaaaa'' ''hello'' 25] \<and>
   hd (chatHistory_push (ChatEntry ''aaaaaa'' ''hello'' 25) ex_history) = ex_history ! 1"
proof -
  have h1: "map_of (clients joined1) 1 = Some ex_alice" by (simp add: joined1_def)
  have h2: "length ex_history = 25" by (simp add: ex_history_def)
  from chatHistory_bounded_fifo[where s = joined1 and w = 1 and cd = ex_alice
      and h = ex_history and e = "ChatEntry ''aaaaaa'' ''hello'' 25" and now = 2000
      and content = "''hello''"]
    reachable_joined1 h1 h2
  show ?thesis by blast
qed

subsection \<open>C5: the batch flush\<close>

text \<open>
  Claim C5 says that at a flush every recipient with exactly one queued message receives
  that message as it is, every recipient with two or more receives exactly one
  \<^verbatim>\<open>batch_update\<close> envelope holding all of them in enqueue order, and all queues are
  empty afterwards.

  Line 89 guards every send of the flush with \<^verbatim>\<open>ws.readyState === WebSocket.OPEN\<close>:
  a recipient whose socket is no longer open is sent nothing, so the claim fails as
  stated. The theorem is C5 as amended. After a flush, from any state, the queues are
  empty and the timer variable is cleared. A socket \<open>r\<close> that is not open is sent
  nothing by the flush, whatever its queue holds: of every frame it has been sent as
  often as before. For a recipient \<open>r\<close> whose socket is open and whose sends do not
  throw, in a state that is \<open>wellformed\<close> (by lemma \<open>reachable_wellformed\<close>, every
  reachable state), and for every frame \<open>f\<close>, what \<open>r\<close> has been sent of \<open>f\<close>
  grows by one exactly when \<open>f\<close> is the single queued message, or the envelope of the
  whole queue when it holds two or more; the only other frames \<open>r\<close> is sent are one
  \<^verbatim>\<open>player_left\<close> for each connection removed because a send to it threw. A push
  appends at the back of the queue, so the envelope is in enqueue order.
\<close>

theorem flush_delivers_queue:
  "pendingUpdates (flushBatchedUpdates s) = [] \<and>
   updateBatchTimer (flushBatchedUpdates s) = False \<and>
   (wellformed s \<and> map_of (pendingUpdates s) r = Some messages \<and>
    readyState (socks s r) = OPEN \<and> \<not> sendFails (socks s r) \<longrightarrow>
      (\<forall>f. delivered r f (flushBatchedUpdates s) + leaving f (clients (flushBatchedUpdates s)) =
            delivered r f s + leaving f (clients s) +
              (if (length messages = 1 \<and> f = messages ! 0) \<or>
                  (length messages \<ge> 2 \<and> f = BatchUpdate messages) then 1 else 0)) \<and>
      (\<forall>f. (\<forall>i. f \<noteq> PlayerLeft i) \<longrightarrow>
            delivered r f (flushBatchedUpdates s) =
              delivered r f s +
                (if (length messages = 1 \<and> f = messages ! 0) \<or>
                    (length messages \<ge> 2 \<and> f = BatchUpdate messages) then 1 else 0))) \<and>
   (readyState (socks s r) \<noteq> OPEN \<longrightarrow>
      (\<forall>f. delivered r f (flushBatchedUpdates s) = delivered r f s)) \<and>
   (map_of (pendingUpdates s) r = Some messages \<longrightarrow>
      (\<forall>m. map_of (pending_push r m (pendingUpdates s)) r = Some (messages @ [m])))"
proof -
  have cleared: "pendingUpdates (flushBatchedUpdates s) = []"
    "updateBatchTimer (flushBatchedUpdates s) = False"
    by (simp_all add: flushBatchedUpdates_def Let_def)
  have closed: "readyState (socks s r) \<noteq> OPEN \<longrightarrow>
      (\<forall>f. delivered r f (flushBatchedUpdates s) = delivered r f s)"
    by (simp add: flush_not_open)
  have push: "map_of (pendingUpdates s) r = Some messages \<longrightarrow>
      (\<forall>m. map_of (pending_push r m (pendingUpdates s)) r = Some (messages @ [m]))"
    by (simp add: pending_push_back)
  have "open": "wellformed s \<and> map_of (pendingUpdates s) r = Some messages \<and>
    readyState (socks s r) = OPEN \<and> \<not> sendFails (socks s r) \<longrightarrow>
      (\<forall>f. delivered r f (flushBatchedUpdates s) + leaving f (clients (flushBatchedUpdates s)) =
            delivered r f s + leaving f (clients s) +
              (if (length messages = 1 \<and> f = messages ! 0) \<or>
                  (length messages \<ge> 2 \<and> f = BatchUpdate messages) then 1 else 0)) \<and>
      (\<forall>f. (\<forall>i. f \<noteq> PlayerLeft i) \<longrightarrow>
            delivered r f (flushBatchedUpdates s) =
              delivered r f s +
                (if (length messages = 1 \<and> f = messages ! 0) \<or>
                    (length messages \<ge> 2 \<and> f = BatchUpdate messages) then 1 else 0))"
  proof (intro impI)
    assume a: "wellformed s \<and> map_of (pendingUpdates s) r = Some messages \<and>
      readyState (socks s r) = OPEN \<and> \<not> sendFails (socks s r)"
    then have q: "map_of (pendingUpdates s) r = Some messages" by simp
    have "r \<in> fst ` set (pendingUpdates s)"
      using q by (metis map_of_eq_None_iff option.distinct(1))
    then have "map_of (clients s) r \<noteq> None"
      using a by (auto simp: wellformed_def map_of_eq_None_iff)
    then have h: "healthy r s" using a by (simp add: healthy_def)
    have d: "distinct (map fst (clients s))" "distinct (map fst (pendingUpdates s))"
      using a by (simp_all add: wellformed_def)
    note law = flush_conservation[OF d h q]
    have pl: "\<And>f. flush_payload messages = Some f \<longleftrightarrow>
        (length messages = 1 \<and> f = messages ! 0) \<or> (length messages \<ge> 2 \<and> f = BatchUpdate messages)"
      by (auto simp: flush_payload_def)
    have general: "\<forall>f. delivered r f (flushBatchedUpdates s) +
          leaving f (clients (flushBatchedUpdates s)) =
        delivered r f s + leaving f (clients s) +
          (if (length messages = 1 \<and> f = messages ! 0) \<or>
              (length messages \<ge> 2 \<and> f = BatchUpdate messages) then 1 else 0)"
      using law pl by simp
    have other: "\<forall>f. (\<forall>i. f \<noteq> PlayerLeft i) \<longrightarrow>
        delivered r f (flushBatchedUpdates s) =
          delivered r f s +
            (if (length messages = 1 \<and> f = messages ! 0) \<or>
                (length messages \<ge> 2 \<and> f = BatchUpdate messages) then 1 else 0)"
    proof (intro allI impI)
      fix f :: frame
      assume "\<forall>i. f \<noteq> PlayerLeft i"
      then have "\<And>cl. leaving f cl = 0" by (intro leaving_not_left) simp
      with general show "delivered r f (flushBatchedUpdates s) =
          delivered r f s +
            (if (length messages = 1 \<and> f = messages ! 0) \<or>
                (length messages \<ge> 2 \<and> f = BatchUpdate messages) then 1 else 0)"
        by (metis add.right_neutral)
    qed
    from general other show "(\<forall>f. delivered r f (flushBatchedUpdates s) + leaving f (clients (flushBatchedUpdates s)) =
            delivered r f s + leaving f (clients s) +
              (if (length messages = 1 \<and> f = messages ! 0) \<or>
                  (length messages \<ge> 2 \<and> f = BatchUpdate messages) then 1 else 0)) \<and>
      (\<forall>f. (\<forall>i. f \<noteq> PlayerLeft i) \<longrightarrow>
            delivered r f (flushBatchedUpdates s) =
              delivered r f s +
                (if (length messages = 1 \<and> f = messages ! 0) \<or>
                    (length messages \<ge> 2 \<and> f = BatchUpdate messages) then 1 else 0))"
      by blast
  qed
  from cleared closed push "open" show ?thesis by blast
qed

text \<open>
  Witness for C5: connection 2 of \<open>two_queued\<close> is open and has two queued updates;
  it is sent one envelope, and the first update is not sent on its own. Connection 2 of
  \<open>closing2\<close> has one queued update and is closing; it is not sent the update.
\<close>

theorem flush_delivers_queue_witness:
  "wellformed two_queued \<and> readyState (socks two_queued 2) = OPEN \<and>
   \<not> sendFails (socks two_queued 2) \<and>
   map_of (pendingUpdates two_queued) 2 = Some [ex_update1, ex_update2] \<and>
   pendingUpdates (flushBatchedUpdates two_queued) = [] \<and>
   delivered 2 (BatchUpdate [ex_update1, ex_update2]) (flushBatchedUpdates two_queued) =
     delivered 2 (BatchUpdate [ex_update1, ex_update2]) two_queued + 1 \<and>
   delivered 2 ex_update1 (flushBatchedUpdates two_queued) = delivered 2 ex_update1 two_queued \<and>
   map_of (pending_push 2 ex_update1 (pendingUpdates two_queued)) 2 =
     Some [ex_update1, ex_update2, ex_update1] \<and>
   map_of (pendingUpdates closing2) 2 = Some [PlayerUpdate ''aaaaaa'' ex_stamped] \<and>
   readyState (socks closing2 2) \<noteq> OPEN \<and>
   delivered 2 (PlayerUpdate ''aaaaaa'' ex_stamped) (flushBatchedUpdates closing2) =
     delivered 2 (PlayerUpdate ''aaaaaa'' ex_stamped) closing2"
proof -
  have h1: "wellformed two_queued"
    and h2: "readyState (socks two_queued 2) = OPEN"
    and h3: "\<not> sendFails (socks two_queued 2)"
    and h4: "map_of (pendingUpdates two_queued) 2 = Some [ex_update1, ex_update2]"
    by (simp_all add: two_queued_def two_clients_def wellformed_def)
  have n1: "\<forall>i. BatchUpdate [ex_update1, ex_update2] \<noteq> PlayerLeft i"
    and n2: "\<forall>i. ex_update1 \<noteq> PlayerLeft i"
    by (simp_all add: ex_update1_def)
  have c1: "map_of (pendingUpdates closing2) 2 = Some [PlayerUpdate ''aaaaaa'' ex_stamped]"
    and c2: "readyState (socks closing2 2) \<noteq> OPEN"
    using closing2_state by simp_all
  from flush_delivers_queue[of two_queued 2 "[ex_update1, ex_update2]"] n1 n2 h1 h2 h3 h4
  have a: "pendingUpdates (flushBatchedUpdates two_queued) = [] \<and>
   delivered 2 (BatchUpdate [ex_update1, ex_update2]) (flushBatchedUpdates two_queued) =
     delivered 2 (BatchUpdate [ex_update1, ex_update2]) two_queued + 1 \<and>
   delivered 2 ex_update1 (flushBatchedUpdates two_queued) = delivered 2 ex_update1 two_queued \<and>
   map_of (pending_push 2 ex_update1 (pendingUpdates two_queued)) 2 =
     Some [ex_update1, ex_update2, ex_update1]"
    by (simp add: ex_update1_def)
  from flush_delivers_queue[of closing2 2 "[PlayerUpdate ''aaaaaa'' ex_stamped]"] c2
  have b: "delivered 2 (PlayerUpdate ''aaaaaa'' ex_stamped) (flushBatchedUpdates closing2) =
     delivered 2 (PlayerUpdate ''aaaaaa'' ex_stamped) closing2"
    by blast
  from a b h1 h2 h3 h4 c1 c2 show ?thesis by blast
qed

text \<open>
  Counterexample to C5 as stated, in the reachable state \<open>closing2\<close>: the queue of
  connection 2 holds exactly one message, the timeout is pending, and the socket is
  closing when it fires. Nothing is sent, and the queue is discarded.
\<close>

theorem flush_closing_recipient_counterexample:
  "reachable closing2 \<and>
   map_of (pendingUpdates closing2) 2 = Some [PlayerUpdate ''aaaaaa'' ex_stamped] \<and>
   0 < scheduledFlushes closing2 \<and>
   sent (flush_timeout closing2) = sent closing2 \<and>
   delivered 2 (PlayerUpdate ''aaaaaa'' ex_stamped) (flush_timeout closing2) = 0 \<and>
   pendingUpdates (flush_timeout closing2) = []"
proof -
  have "flush_forEach [2] (closing2\<lparr>scheduledFlushes := scheduledFlushes closing2 - 1\<rparr>) =
        closing2\<lparr>scheduledFlushes := scheduledFlushes closing2 - 1\<rparr>"
    using closing2_state by simp
  then have "sent (flush_timeout closing2) = sent closing2"
    using closing2_state by (simp add: flush_timeout_def flushBatchedUpdates_def)
  with reachable_closing2 closing2_state joined2_state show ?thesis
    by (simp add: delivered_def flush_timeout_frame)
qed

subsection \<open>C6: disconnect handling runs once\<close>

text \<open>
  Claim C6: \<^verbatim>\<open>handleClientDisconnect\<close> does nothing for a socket that is not in the
  registry; for one that is, it removes the registry entry, discards the pending queue
  and broadcasts \<^verbatim>\<open>player_left\<close> with its id at once. So for any sequence of
  disconnect triggers (close, error, liveness timeout) on the same socket the removal
  and the broadcast happen exactly once.

  In the theorem \<open>fire_all (t # ts) w s\<close> runs the triggers \<open>t # ts\<close> on \<open>w\<close>.
  After the first trigger the socket is unregistered and its queue is gone; the later
  ones change neither the registry nor the queues nor the log. When the Map has distinct
  keys and no other registered connection has the id of \<open>w\<close>, a healthy connection
  \<open>r\<close> other than \<open>w\<close> has been sent the \<^verbatim>\<open>player_left\<close> of \<open>w\<close> exactly once
  more after all the triggers than before them.
\<close>

theorem disconnect_exactly_once:
  "(map_of (clients s) w = None \<longrightarrow> handleClientDisconnect w s = s) \<and>
   (map_of (clients s) w = Some cd \<longrightarrow>
      handleClientDisconnect w s =
        broadcastImmediate (PlayerLeft (clientId cd)) None
          (s\<lparr>clients := AList.delete w (clients s),
             pendingUpdates := AList.delete w (pendingUpdates s)\<rparr>) \<and>
      map_of (clients (handleClientDisconnect w s)) w = None \<and>
      map_of (pendingUpdates (handleClientDisconnect w s)) w = None) \<and>
   handleClientDisconnect w (handleClientDisconnect w s) = handleClientDisconnect w s \<and>
   (map_of (clients s) w = Some cd \<longrightarrow>
      map_of (clients (fire_all (t # ts) w s)) w = None \<and>
      map_of (pendingUpdates (fire_all (t # ts) w s)) w = None \<and>
      clients (fire_all (t # ts) w s) = clients (fire t w s) \<and>
      pendingUpdates (fire_all (t # ts) w s) = pendingUpdates (fire t w s) \<and>
      sent (fire_all (t # ts) w s) = sent (fire t w s) \<and>
      (distinct (map fst (clients s)) \<and> leaving (PlayerLeft (clientId cd)) (clients s) = 1 \<and>
       healthy r s \<and> r \<noteq> w \<longrightarrow>
         delivered r (PlayerLeft (clientId cd)) (fire_all (t # ts) w s) =
           delivered r (PlayerLeft (clientId cd)) s + 1))"
proof -
  have idem: "handleClientDisconnect w (handleClientDisconnect w s) = handleClientDisconnect w s"
    by (simp add: disconnect_absent disconnect_removes)
  have later: "clients (fire_all (t # ts) w s) = clients (fire t w s) \<and>
      pendingUpdates (fire_all (t # ts) w s) = pendingUpdates (fire t w s) \<and>
      sent (fire_all (t # ts) w s) = sent (fire t w s)"
    using fire_all_unregistered[where s = "fire t w s" and w = w and ts = ts, OF fire_removes]
    by (simp add: fire_all_def)
  have absent: "map_of (clients s) w = None \<longrightarrow> handleClientDisconnect w s = s"
    by (simp add: disconnect_absent)
  have present: "map_of (clients s) w = Some cd \<longrightarrow>
      handleClientDisconnect w s =
        broadcastImmediate (PlayerLeft (clientId cd)) None
          (s\<lparr>clients := AList.delete w (clients s),
             pendingUpdates := AList.delete w (pendingUpdates s)\<rparr>) \<and>
      map_of (clients (handleClientDisconnect w s)) w = None \<and>
      map_of (pendingUpdates (handleClientDisconnect w s)) w = None"
  proof (intro impI conjI)
    assume reg: "map_of (clients s) w = Some cd"
    show "handleClientDisconnect w s =
        broadcastImmediate (PlayerLeft (clientId cd)) None
          (s\<lparr>clients := AList.delete w (clients s),
             pendingUpdates := AList.delete w (pendingUpdates s)\<rparr>)"
      by (simp add: disconnect_present[OF reg] broadcastImmediate_def)
    show "map_of (clients (handleClientDisconnect w s)) w = None"
      "map_of (pendingUpdates (handleClientDisconnect w s)) w = None"
      using disconnect_removes_present[OF reg] by simp_all
  qed
  have once: "map_of (clients s) w = Some cd \<longrightarrow>
      map_of (clients (fire_all (t # ts) w s)) w = None \<and>
      map_of (pendingUpdates (fire_all (t # ts) w s)) w = None \<and>
      clients (fire_all (t # ts) w s) = clients (fire t w s) \<and>
      pendingUpdates (fire_all (t # ts) w s) = pendingUpdates (fire t w s) \<and>
      sent (fire_all (t # ts) w s) = sent (fire t w s) \<and>
      (distinct (map fst (clients s)) \<and> leaving (PlayerLeft (clientId cd)) (clients s) = 1 \<and>
       healthy r s \<and> r \<noteq> w \<longrightarrow>
         delivered r (PlayerLeft (clientId cd)) (fire_all (t # ts) w s) =
           delivered r (PlayerLeft (clientId cd)) s + 1)"
  proof (intro impI conjI)
    assume reg: "map_of (clients s) w = Some cd"
    show "map_of (clients (fire_all (t # ts) w s)) w = None"
      using later fire_removes[where t = t and w = w and s = s] by simp
    show "map_of (pendingUpdates (fire_all (t # ts) w s)) w = None"
      using later fire_discards_queue[OF reg, where t = t] by simp
    show "clients (fire_all (t # ts) w s) = clients (fire t w s)"
      "pendingUpdates (fire_all (t # ts) w s) = pendingUpdates (fire t w s)"
      "sent (fire_all (t # ts) w s) = sent (fire t w s)"
      using later by simp_all
    assume "distinct (map fst (clients s)) \<and> leaving (PlayerLeft (clientId cd)) (clients s) = 1 \<and>
       healthy r s \<and> r \<noteq> w"
    then have "delivered r (PlayerLeft (clientId cd)) (fire t w s) =
        delivered r (PlayerLeft (clientId cd)) s + 1"
      using fire_delivers_once[OF reg, where t = t and r = r] by blast
    then show "delivered r (PlayerLeft (clientId cd)) (fire_all (t # ts) w s) =
           delivered r (PlayerLeft (clientId cd)) s + 1"
      using later by (simp add: delivered_def)
  qed
  from absent present idem once show ?thesis by blast
qed

text \<open>
  Witness for C6: the unregistered socket 1 of \<open>bob_only\<close>, and connection 1 of
  \<open>two_clients\<close> hit by a liveness timeout, a close and an error.
\<close>

theorem disconnect_exactly_once_witness:
  "map_of (clients bob_only) 1 = None \<and> handleClientDisconnect 1 bob_only = bob_only \<and>
   map_of (clients two_clients) 1 = Some ex_alice \<and>
   distinct (map fst (clients two_clients)) \<and>
   leaving (PlayerLeft (clientId ex_alice)) (clients two_clients) = 1 \<and>
   healthy 2 two_clients \<and>
   map_of (clients (fire_all [LivenessTimeout, CloseEvent, ErrorEvent] 1 two_clients)) 1 = None \<and>
   sent (fire_all [LivenessTimeout, CloseEvent, ErrorEvent] 1 two_clients) =
     sent (fire LivenessTimeout 1 two_clients) \<and>
   delivered 2 (PlayerLeft (clientId ex_alice))
       (fire_all [LivenessTimeout, CloseEvent, ErrorEvent] 1 two_clients) =
     delivered 2 (PlayerLeft (clientId ex_alice)) two_clients + 1"
proof -
  have a: "map_of (clients bob_only) 1 = None" by (simp add: bob_only_def)
  have h1: "map_of (clients two_clients) 1 = Some ex_alice"
    and h2: "distinct (map fst (clients two_clients))"
    and h3: "leaving (PlayerLeft (clientId ex_alice)) (clients two_clients) = 1"
    and h4: "healthy 2 two_clients"
    by (simp_all add: two_clients_def leaving_def healthy_def ex_alice_def ex_bob_def)
  have h5: "(2::nat) \<noteq> 1" by simp
  from disconnect_exactly_once[where s = bob_only and w = 1] a
  have p1: "handleClientDisconnect 1 bob_only = bob_only" by blast
  from disconnect_exactly_once[where s = two_clients and w = 1 and cd = ex_alice and r = 2
      and t = LivenessTimeout and ts = "[CloseEvent, ErrorEvent]"] h1 h2 h3 h4 h5
  have p2: "map_of (clients (fire_all [LivenessTimeout, CloseEvent, ErrorEvent] 1 two_clients)) 1 = None"
    and p3: "sent (fire_all [LivenessTimeout, CloseEvent, ErrorEvent] 1 two_clients) =
     sent (fire LivenessTimeout 1 two_clients)"
    and p4: "delivered 2 (PlayerLeft (clientId ex_alice))
       (fire_all [LivenessTimeout, CloseEvent, ErrorEvent] 1 two_clients) =
     delivered 2 (PlayerLeft (clientId ex_alice)) two_clients + 1"
    by blast+
  from a p1 h1 h2 h3 h4 p2 p3 p4 show ?thesis by blast
qed

subsection \<open>C7: a connection that never answers a probe\<close>

text \<open>
  Claim C7: a connection that never acknowledges a liveness probe is removed by the second
  of two consecutive sweeps. The first sweep clears its \<^verbatim>\<open>isAlive\<close> flag and pings
  it; the second sees the flag false, runs the disconnect handling and terminates the
  socket; and only one \<^verbatim>\<open>player_left\<close> is broadcast, although the termination lets
  the socket's \<^verbatim>\<open>close\<close> event fire as well.

  In the theorem \<open>w\<close> is in \<^verbatim>\<open>wss.clients\<close> and alive before the first sweep, and
  between the sweeps pongs arrive on the sockets \<open>acks\<close>, none of them \<open>w\<close>. After
  the first sweep the flag of \<open>w\<close> is false, \<open>w\<close> was pinged if it is open, and it is
  still registered unless a send to it throws. After the second sweep \<open>w\<close> is
  unregistered and its socket closing or closed. The \<^verbatim>\<open>close\<close> event that follows
  changes neither the registry nor the log. A healthy connection \<open>r\<close> that answered
  its probe has been sent the \<^verbatim>\<open>player_left\<close> of \<open>w\<close> exactly once more after the
  two sweeps and the close event than before (the Map with distinct keys, no other
  registered connection with the id of \<open>w\<close>).
\<close>

theorem unresponsive_connection_evicted:
  assumes "w \<in> set (wssClients s)" and "distinct (wssClients s)"
    and "isAlive (socks s w)" and "w \<notin> set acks"
  shows "\<not> isAlive (socks (heartbeatInterval s) w) \<and>
         (readyState (socks s w) = OPEN \<longrightarrow> w \<in> set (pinged (heartbeatInterval s))) \<and>
         (\<not> sendFails (socks s w) \<longrightarrow>
            map_of (clients (heartbeatInterval s)) w = map_of (clients s) w) \<and>
         map_of (clients (two_sweeps acks s)) w = None \<and>
         (readyState (socks (two_sweeps acks s) w) = CLOSING \<or>
          readyState (socks (two_sweeps acks s) w) = CLOSED) \<and>
         clients (on_close w (two_sweeps acks s)) = clients (two_sweeps acks s) \<and>
         sent (on_close w (two_sweeps acks s)) = sent (two_sweeps acks s) \<and>
         (\<forall>r cd. map_of (clients s) w = Some cd \<and> distinct (map fst (clients s)) \<and>
                 leaving (PlayerLeft (clientId cd)) (clients s) = 1 \<and>
                 healthy r s \<and> isAlive (socks s r) \<and> r \<in> set acks \<longrightarrow>
            delivered r (PlayerLeft (clientId cd)) (on_close w (two_sweeps acks s)) =
              delivered r (PlayerLeft (clientId cd)) s + 1)"
proof -
  let ?s3 = "two_sweeps acks s"
  have first: "\<not> isAlive (socks (heartbeatInterval s) w)"
    using assms(1) by (simp add: heartbeatInterval_def sweep_clears_alive)
  have ping: "readyState (socks s w) = OPEN \<longrightarrow> w \<in> set (pinged (heartbeatInterval s))"
    using sweep_pings[OF assms(1,2,3)] by (simp add: heartbeatInterval_def)
  have kept: "\<not> sendFails (socks s w) \<longrightarrow>
      map_of (clients (heartbeatInterval s)) w = map_of (clients s) w"
    using sweep_keeps[of s w "wssClients s"] assms(2,3) by (simp add: heartbeatInterval_def)
  have g: "gone w ?s3" using two_sweeps_gone[OF assms(1,4)] .
  then have un: "map_of (clients ?s3) w = None"
    and ended: "readyState (socks ?s3 w) = CLOSING \<or> readyState (socks ?s3 w) = CLOSED"
    by (simp_all add: gone_def)
  have cl: "clients (on_close w ?s3) = clients ?s3" "sent (on_close w ?s3) = sent ?s3"
    using on_close_gone[OF un] by simp_all
  have once: "\<forall>r cd. map_of (clients s) w = Some cd \<and> distinct (map fst (clients s)) \<and>
                 leaving (PlayerLeft (clientId cd)) (clients s) = 1 \<and>
                 healthy r s \<and> isAlive (socks s r) \<and> r \<in> set acks \<longrightarrow>
            delivered r (PlayerLeft (clientId cd)) (on_close w ?s3) =
              delivered r (PlayerLeft (clientId cd)) s + 1"
  proof (intro allI impI)
    fix r cd
    assume a: "map_of (clients s) w = Some cd \<and> distinct (map fst (clients s)) \<and>
                 leaving (PlayerLeft (clientId cd)) (clients s) = 1 \<and>
                 healthy r s \<and> isAlive (socks s r) \<and> r \<in> set acks"
    let ?f = "PlayerLeft (clientId cd)"
    from a have reg: "map_of (clients s) w = Some cd" and d: "distinct (map fst (clients s))"
      and u: "leaving ?f (clients s) = 1" and h: "healthy r s"
      and al: "isAlive (socks s r)" and ack: "r \<in> set acks" by simp_all
    have z: "leaving ?f (clients ?s3) = 0"
      using leaving_zero_subset[OF two_sweeps_subset d reg u un] .
    from two_sweeps_conservation[OF d assms(2) h al ack, of ?f] z u
    have "delivered r ?f ?s3 = delivered r ?f s + 1" by simp
    then show "delivered r ?f (on_close w ?s3) = delivered r ?f s + 1"
      using cl(2) by (simp add: delivered_def)
  qed
  from first ping kept un ended cl once show ?thesis by blast
qed

text \<open>
  Witness for C7: in \<open>two_clients\<close> connection 1 stays silent and connection 2
  answers its probe.
\<close>

theorem unresponsive_connection_evicted_witness:
  "1 \<in> set (wssClients two_clients) \<and> distinct (wssClients two_clients) \<and>
   isAlive (socks two_clients 1) \<and> 1 \<notin> set [2::nat] \<and>
   map_of (clients two_clients) 1 = Some ex_alice \<and>
   distinct (map fst (clients two_clients)) \<and>
   leaving (PlayerLeft (clientId ex_alice)) (clients two_clients) = 1 \<and>
   healthy 2 two_clients \<and> isAlive (socks two_clients 2) \<and>
   \<not> isAlive (socks (heartbeatInterval two_clients) 1) \<and>
   1 \<in> set (pinged (heartbeatInterval two_clients)) \<and>
   map_of (clients (heartbeatInterval two_clients)) 1 = map_of (clients two_clients) 1 \<and>
   map_of (clients (two_sweeps [2] two_clients)) 1 = None \<and>
   sent (on_close 1 (two_sweeps [2] two_clients)) = sent (two_sweeps [2] two_clients) \<and>
   delivered 2 (PlayerLeft (clientId ex_alice)) (on_close 1 (two_sweeps [2] two_clients)) =
     delivered 2 (PlayerLeft (clientId ex_alice)) two_clients + 1"
proof -
  have h1: "1 \<in> set (wssClients two_clients)" and h2: "distinct (wssClients two_clients)"
    and h3: "isAlive (socks two_clients 1)" and h4: "1 \<notin> set [2::nat]"
    by (simp_all add: two_clients_def)
  have g1: "map_of (clients two_clients) 1 = Some ex_alice"
    and g2: "distinct (map fst (clients two_clients))"
    and g3: "leaving (PlayerLeft (clientId ex_alice)) (clients two_clients) = 1"
    and g4: "healthy 2 two_clients" and g5: "isAlive (socks two_clients 2)"
    and g6: "2 \<in> set [2::nat]"
    and g7: "readyState (socks two_clients 1) = OPEN"
    and g8: "\<not> sendFails (socks two_clients 1)"
    by (simp_all add: two_clients_def leaving_def healthy_def ex_alice_def ex_bob_def)
  from unresponsive_connection_evicted[OF h1 h2 h3 h4] g1 g2 g3 g4 g5 g6 g7 g8 h1 h2 h3 h4
  show ?thesis by blast
qed

subsection \<open>C8: a pong\<close>

text \<open>
  Claim C8 says that a pong sets the connection's alive flag to true and also refreshes
  its \<^verbatim>\<open>lastHeartbeat\<close>.

  The \<^verbatim>\<open>pong\<close> listener is \<^verbatim>\<open>heartbeat\<close> (lines 132 to 134 and 170), which sets
  \<^verbatim>\<open>this.isAlive = true\<close> and does nothing else: \<^verbatim>\<open>lastHeartbeat\<close> is written at
  connection time and by the message handler only. The theorem is C8 as amended: a pong
  sets the flag of its socket and leaves the registry, and with it every
  \<^verbatim>\<open>lastHeartbeat\<close>, as it was.
\<close>

theorem pong_sets_alive_only:
  "isAlive (socks (heartbeat w s) w) \<and> clients (heartbeat w s) = clients s \<and>
   heartbeat w s = s\<lparr>socks := (socks s)(w := (socks s w)\<lparr>isAlive := True\<rparr>)\<rparr>"
  by (simp add: heartbeat_def)

text \<open>
  Counterexample to C8 as stated, in the reachable state \<open>joined1\<close>: connection 1
  connected at time 1000; after a pong, at whatever later time (6000, say), its
  \<^verbatim>\<open>lastHeartbeat\<close> is still 1000.
\<close>

theorem pong_refreshes_lastHeartbeat_counterexample:
  "reachable joined1 \<and>
   map_option lastHeartbeat (map_of (clients (heartbeat 1 joined1)) 1) = Some 1000 \<and>
   map_option lastHeartbeat (map_of (clients (heartbeat 1 joined1)) 1) \<noteq> Some 6000"
  using reachable_joined1
  by (simp add: heartbeat_def joined1_def ex_alice_def)

subsection \<open>C9: one flush scheduled at a time\<close>

text \<open>
  Claim C9: at every instant at most one batch flush is scheduled. \<^verbatim>\<open>batchBroadcast\<close>
  sets a timeout only when none is pending, and \<^verbatim>\<open>flushBatchedUpdates\<close> clears the
  timer variable after it has gone through all recipients, so that only a later enqueue
  schedules the next flush.

  In every reachable state at most one timeout of the flush is pending, and the timer
  variable is set exactly when one is. A non-priority broadcast adds a timeout exactly
  when the variable was unset, and sets it; the loop of the flush leaves the variable
  alone and the flush clears it afterwards, adding no timeout; when the pending timeout
  of a reachable state fires, none is pending afterwards and the variable is unset.
\<close>

theorem one_flush_scheduled:
  "(reachable s \<longrightarrow>
      scheduledFlushes s \<le> 1 \<and> (updateBatchTimer s \<longleftrightarrow> scheduledFlushes s = 1)) \<and>
   scheduledFlushes (batchBroadcast m ex False s) =
     (if updateBatchTimer s then scheduledFlushes s else Suc (scheduledFlushes s)) \<and>
   updateBatchTimer (batchBroadcast m ex False s) \<and>
   updateBatchTimer (flush_forEach ks s) = updateBatchTimer s \<and>
   \<not> updateBatchTimer (flushBatchedUpdates s) \<and>
   scheduledFlushes (flushBatchedUpdates s) = scheduledFlushes s \<and>
   (reachable s \<and> 0 < scheduledFlushes s \<longrightarrow>
      scheduledFlushes (flush_timeout s) = 0 \<and> \<not> updateBatchTimer (flush_timeout s))"
proof -
  have inv: "reachable s \<longrightarrow>
      scheduledFlushes s \<le> 1 \<and> (updateBatchTimer s \<longleftrightarrow> scheduledFlushes s = 1)"
    using reachable_timer_inv[of s] by (simp add: timer_inv_def)
  have fired: "reachable s \<and> 0 < scheduledFlushes s \<longrightarrow>
      scheduledFlushes (flush_timeout s) = 0 \<and> \<not> updateBatchTimer (flush_timeout s)"
    using inv by (auto simp: flush_timeout_frame)
  have flush: "\<not> updateBatchTimer (flushBatchedUpdates s)"
    "scheduledFlushes (flushBatchedUpdates s) = scheduledFlushes s"
    by (simp_all add: flushBatchedUpdates_def Let_def flush_forEach_frame)
  from inv fired flush batchBroadcast_schedules[of m ex s] flush_forEach_frame[of ks s]
  show ?thesis by simp
qed

text \<open>
  Witness for C9: the reachable state \<open>moved1\<close>, in which the first connection's
  move has scheduled a flush.
\<close>

theorem one_flush_scheduled_witness:
  "reachable moved1 \<and> 0 < scheduledFlushes moved1 \<and> scheduledFlushes moved1 \<le> 1 \<and>
   updateBatchTimer moved1 \<and>
   scheduledFlushes (batchBroadcast ex_update1 (Some 1) False moved1) = 1 \<and>
   scheduledFlushes (flush_timeout moved1) = 0 \<and> \<not> updateBatchTimer (flush_timeout moved1)"
  using one_flush_scheduled[where s = moved1 and m = ex_update1 and ex = "Some 1"]
    reachable_moved1 moved1_timer
  by simp

subsection \<open>C10: a message on an unregistered socket\<close>

text \<open>
  Claim C10: a message that arrives on a socket that is not in the registry (after its
  disconnect was handled, say) changes nothing and sends nothing, not even the pong that
  answers a ping: the handler returns the state it was given, whatever the message.
\<close>

theorem unregistered_sender_noop:
  "map_of (clients s) w = None \<Longrightarrow> on_message w now msg s = s"
  by (simp add: on_message_def split: inbound.splits)

text \<open>
  Witness for C10: socket 1 of \<open>bob_only\<close> is open and unregistered, and sends a ping.
\<close>

theorem unregistered_sender_noop_witness:
  "map_of (clients bob_only) 1 = None \<and> on_message 1 3000 (PingIn (Some 2990)) bob_only = bob_only"
proof -
  have h: "map_of (clients bob_only) 1 = None" by (simp add: bob_only_def)
  from unregistered_sender_noop[OF h] h show ?thesis by simp
qed

end
